theory Spec2Isabelle
  imports Complex_Main "HOL-Library.Sublist"
begin

section \<open>peastat: the log analyser of themes/djangobook/static/pea.py\<close>

text \<open>
  The script is Python 2.  Strings are byte strings, modelled as \<^typ>\<open>string\<close>;
  an exception that leaves a function is a value \<open>Inl e\<close> of a sum type, a normal
  return is \<open>Inr v\<close>.
\<close>

datatype error =
  IndexError | UnboundLocalError | ValueError | ZeroDivisionError | OverflowError

subsection \<open>The string and list operations of Python that the script calls\<close>

text \<open>Three characters that cannot be written inside an Isabelle string literal.\<close>

definition dquote :: char where
  "dquote = CHR 0x22"

definition backslash :: char where
  "backslash = CHR 0x5C"

definition newline :: char where
  "newline = CHR 0x0A"

text \<open>
  Subscripting \<open>xs[i]\<close>.  For \<open>i \<ge> 0\<close> the element at position \<open>i\<close>; for
  \<open>i < 0\<close> the element at position \<open>len(xs) + i\<close>; IndexError when that position
  does not exist.
\<close>

definition py_index :: "'a list \<Rightarrow> int \<Rightarrow> error + 'a" where
  "py_index xs i =
     (if 0 \<le> i
      then (if nat i < length xs then Inr (xs ! nat i) else Inl IndexError)
      else (if nat (- i) \<le> length xs then Inr (xs ! (length xs - nat (- i)))
            else Inl IndexError))"

text \<open>
  \<open>s.split(sep)\<close> for a non-empty separator: the occurrences of \<open>sep\<close> are found from
  the left and do not overlap; the result has one more element than there are
  occurrences.  (Python raises ValueError for an empty separator; every call of the
  script passes a non-empty literal.)
\<close>

function py_split :: "string \<Rightarrow> string \<Rightarrow> string list" where
  "py_split [] sep = [[]]"
| "py_split (c # cs) sep =
     (if sep \<noteq> [] \<and> prefix sep (c # cs)
      then [] # py_split (drop (length sep) (c # cs)) sep
      else (let r = py_split cs sep in (c # hd r) # tl r))"
  by pat_completeness auto
termination
  by (relation "measure (\<lambda>(s, sep). length s)") auto

text \<open>\<open>s.replace(old, new)\<close> for a non-empty \<open>old\<close>: every occurrence, from the left.\<close>

function py_replace :: "string \<Rightarrow> string \<Rightarrow> string \<Rightarrow> string" where
  "py_replace [] old new = []"
| "py_replace (c # cs) old new =
     (if old \<noteq> [] \<and> prefix old (c # cs)
      then new @ py_replace (drop (length old) (c # cs)) old new
      else c # py_replace cs old new)"
  by pat_completeness auto
termination
  by (relation "measure (\<lambda>(s, old, new). length s)") auto

text \<open>\<open>s.find(sub)\<close>: the index of the first occurrence, or \<open>-1\<close>.\<close>

fun py_find :: "string \<Rightarrow> string \<Rightarrow> int" where
  "py_find [] sub = (if sub = [] then 0 else - 1)"
| "py_find (c # cs) sub =
     (if prefix sub (c # cs) then 0
      else (let i = py_find cs sub in if i = - 1 then - 1 else i + 1))"

text \<open>\<open>s.count(sub)\<close> for a non-empty \<open>sub\<close>: the number of non-overlapping occurrences.\<close>

function py_count :: "string \<Rightarrow> string \<Rightarrow> nat" where
  "py_count [] sub = 0"
| "py_count (c # cs) sub =
     (if sub \<noteq> [] \<and> prefix sub (c # cs)
      then Suc (py_count (drop (length sub) (c # cs)) sub)
      else py_count cs sub)"
  by pat_completeness auto
termination
  by (relation "measure (\<lambda>(s, sub). length s)") auto

text \<open>\<open>s.lower()\<close> in the C locale: the letters A to Z are mapped, nothing else.\<close>

definition lower_char :: "char \<Rightarrow> char" where
  "lower_char c =
     (let n = (of_char c :: nat) in if 65 \<le> n \<and> n \<le> 90 then char_of (n + 32) else c)"

definition py_lower :: "string \<Rightarrow> string" where
  "py_lower s = map lower_char s"

text \<open>\<open>s.strip()\<close>: space, tab, newline, carriage return, vertical tab and form feed
  are removed from both ends.\<close>

definition is_space :: "char \<Rightarrow> bool" where
  "is_space c = ((of_char c :: nat) \<in> {32, 9, 10, 13, 11, 12})"

definition py_strip :: "string \<Rightarrow> string" where
  "py_strip s = rev (dropWhile is_space (rev (dropWhile is_space s)))"

subsection \<open>Configuration\<close>

definition rooturl :: string where
  "rooturl = ''http://www.djangobook.com/''"

definition logfile :: string where
  "logfile = ''/home/jacob/web/log/djangobook.com/www.log''"

text \<open>
  \<open>ispage = re.compile('/$').search\<close>: without the MULTILINE flag \<open>$\<close> matches at the
  end of the string and just before a newline that ends the string.
\<close>

definition ispage :: "string \<Rightarrow> bool" where
  "ispage resource = (suffix ''/'' resource \<or> suffix [CHR ''/'', newline] resource)"

text \<open>\<open>ignorelines = re.compile('24\.124\.4\.220').search\<close>: the literal address
  occurs somewhere in the line.\<close>

definition ignorelines :: "string \<Rightarrow> bool" where
  "ignorelines line = sublist ''24.124.4.220'' line"

subsection \<open>justdomain\<close>

text \<open>
  \<open>url.split('//')[1].split('/')[0]\<close>, with IndexError caught and answered by
  \<open>'bad referrer'\<close>.
\<close>

definition justdomain :: "string \<Rightarrow> string" where
  "justdomain url =
     (case py_index (py_split url ''//'') 1 of
        Inl e \<Rightarrow> ''bad referrer''
      | Inr rest \<Rightarrow>
          (case py_index (py_split rest ''/'') 0 of
             Inl e \<Rightarrow> ''bad referrer''
           | Inr d \<Rightarrow> d))"

definition thisdomain :: string where
  "thisdomain = justdomain rooturl"

subsection \<open>Numbers\<close>

text \<open>
  The script computes three numbers in floating point: the processing time, the time
  since the first hit and the hit rate.  They are modelled by exact rational arithmetic.
  \<open>int(x)\<close> cuts towards zero; \<open>round(x)\<close> of Python 2 rounds to the nearest integer,
  a half away from zero.
\<close>

definition py_int :: "rat \<Rightarrow> int" where
  "py_int x = (if x < 0 then - \<lfloor>- x\<rfloor> else \<lfloor>x\<rfloor>)"

definition py_round :: "rat \<Rightarrow> int" where
  "py_round x = (if x < 0 then - \<lfloor>- x + 1 / 2\<rfloor> else \<lfloor>x + 1 / 2\<rfloor>)"

text \<open>\<open>d.get(k, default)\<close>\<close>

definition dict_get :: "('k \<rightharpoonup> 'v) \<Rightarrow> 'k \<Rightarrow> 'v \<Rightarrow> 'v" where
  "dict_get d k dflt = (case d k of None \<Rightarrow> dflt | Some v \<Rightarrow> v)"

subsection \<open>What the script reads from its surroundings\<close>

text \<open>
  Everything the functions take from outside the log lines:
  \<^item> \<open>script_name\<close>: the CGI variable SCRIPT_NAME, the global \<open>cgiloc\<close>;
  \<^item> \<open>clock0\<close>, \<open>clock1\<close>: the two readings of \<open>time.time()\<close> in \<open>getOverview\<close>;
  \<^item> \<open>localnow\<close>: \<open>time.mktime(time.localtime())\<close>, in whole seconds;
  \<^item> \<open>strptime_mktime\<close>: \<open>time.mktime(time.strptime(s, '%d/%b/%Y:%H:%M:%S'))\<close>, in whole
    seconds, \<open>None\<close> where \<open>strptime\<close> raises ValueError;
  \<^item> \<open>parse_qs\<close>: the library function \<open>cgi.parse_qs\<close>, from a query string to a
    dictionary of value lists;
  \<^item> \<open>apachetoday\<close>: the global of that name, \<open>time.strftime('%d/%b/%Y')\<close>;
  \<^item> \<open>gethostbyaddr\<close>: the host name \<open>socket.gethostbyaddr(ip)[0]\<close>, \<open>None\<close> where the
    lookup raises;
  \<^item> \<open>quote\<close>: the library function \<open>urllib.quote\<close>.
\<close>

record runtime =
  script_name :: string
  clock0 :: rat
  clock1 :: rat
  localnow :: int
  strptime_mktime :: "string \<Rightarrow> int option"
  parse_qs :: "string \<Rightarrow> (string \<rightharpoonup> string list)"
  apachetoday :: string
  gethostbyaddr :: "string \<Rightarrow> string option"
  quote :: "string \<Rightarrow> string"

subsection \<open>timeSinceApacheDate\<close>

definition timeSinceApacheDate :: "runtime \<Rightarrow> string \<Rightarrow> error + int \<times> int" where
  "timeSinceApacheDate rt apacheDate =
     (case strptime_mktime rt apacheDate of
        None \<Rightarrow> Inl ValueError
      | Some then_secs \<Rightarrow>
          (let minutesSince = (of_int (localnow rt - then_secs) :: rat) / 60;
               hours = (of_int \<lfloor>minutesSince / 60\<rfloor> :: rat);
               minutes = minutesSince - 60 * hours
           in Inr (py_int hours, py_int minutes)))"

subsection \<open>getOverview\<close>

text \<open>
  The second component of an entry of the referrer list is the variable \<open>q\<close> as it
  stands when the entry is appended: \<open>None\<close>, a list that \<open>if q:\<close> found empty, or the
  lower-cased query string.
\<close>

datatype pyval = PyNone | PyList "string list" | PyStr string

text \<open>The local variables that the loop of \<open>getOverview\<close> updates; \<open>lastres\<close> is
  unbound until the first page hit.\<close>

record counts =
  hits :: "string \<rightharpoonup> nat"
  pagecount :: nat
  lastres :: "string option"
  referrers :: "(string \<times> pyval) list"
  queries :: "string \<rightharpoonup> nat"

definition counts0 :: counts where
  "counts0 = \<lparr>hits = Map.empty, pagecount = 0, lastres = None, referrers = [],
               queries = Map.empty\<rparr>"

text \<open>The part of the loop body under \<open>if len(referrer) > 1 and
  referrer.find(thisdomain) == -1\<close>.\<close>

definition count_query :: "runtime \<Rightarrow> string \<Rightarrow> counts \<Rightarrow> counts" where
  "count_query rt referrer c =
     (let querydict = parse_qs rt (last (py_split referrer ''?''));
          q = (if py_count referrer ''.yahoo.'' \<noteq> 0 then querydict ''p''
               else querydict ''q'')
      in case q of
           None \<Rightarrow> c\<lparr>referrers := referrers c @ [(referrer, PyNone)]\<rparr>
         | Some [] \<Rightarrow> c\<lparr>referrers := referrers c @ [(referrer, PyList [])]\<rparr>
         | Some (v # vs) \<Rightarrow>
             (let q1 = py_lower v
              in c\<lparr>queries := (queries c)(q1 \<mapsto> dict_get (queries c) q1 0 + 1),
                   referrers := referrers c @ [(referrer, PyStr q1)]\<rparr>))"

text \<open>One pass through the body of \<open>for line in loglines\<close>.\<close>

definition overview_line :: "runtime \<Rightarrow> counts \<Rightarrow> string \<Rightarrow> error + counts" where
  "overview_line rt c line =
     (case py_index (py_split line '' '') 6 of
        Inl e \<Rightarrow> Inl e
      | Inr resource \<Rightarrow>
          if ispage resource \<and> \<not> ignorelines line then
            (let c1 = c\<lparr>pagecount := pagecount c + 1,
                        hits := (hits c)(resource \<mapsto> dict_get (hits c) resource 0 + 1),
                        lastres := Some resource\<rparr>;
                 line1 = py_replace line [backslash, dquote] ''&quot;''
             in case py_index (py_split line1 [dquote]) (- 4) of
                  Inl e \<Rightarrow> Inl e
                | Inr referrer \<Rightarrow>
                    if 1 < length referrer \<and> py_find referrer thisdomain = - 1
                    then Inr (count_query rt referrer c1)
                    else Inr c1)
          else Inr c)"

fun overview_loop :: "runtime \<Rightarrow> string list \<Rightarrow> counts \<Rightarrow> error + counts" where
  "overview_loop rt [] c = Inr c"
| "overview_loop rt (line # rest) c =
     (case overview_line rt c line of
        Inl e \<Rightarrow> Inl e
      | Inr c1 \<Rightarrow> overview_loop rt rest c1)"

text \<open>The dictionary \<open>overview\<close> that \<open>getOverview\<close> returns, one field for each key.\<close>

record overview =
  ov_cgiloc :: string
  ov_totalhits :: nat
  ov_timing :: int
  ov_logfile :: string
  ov_timeoffirsthit :: string
  ov_hits :: "string \<rightharpoonup> nat"
  ov_lastrequest :: string
  ov_pagecount :: nat
  ov_referrers :: "(string \<times> pyval) list"
  ov_queries :: "string \<rightharpoonup> nat"
  ov_hourssince :: int
  ov_minutessince :: int
  ov_pagehitsperhour :: int

text \<open>
  \<open>getOverview\<close> reads the global \<open>loglines\<close>; here it is an argument.  The statements
  that can raise are, in the order of the source: the subscripts of the first line
  (IndexError), the loop, the read of \<open>lastres\<close> (UnboundLocalError when no iteration has
  assigned it), \<open>timeSinceApacheDate\<close> (ValueError) and the division
  (ZeroDivisionError when the divisor is \<open>0.0\<close>).
\<close>

definition getOverview :: "runtime \<Rightarrow> string list \<Rightarrow> error + overview" where
  "getOverview rt loglines =
     (case py_index loglines 0 of
        Inl e \<Rightarrow> Inl e
      | Inr line0 \<Rightarrow>
     (case py_index (py_split line0 '' '') 3 of
        Inl e \<Rightarrow> Inl e
      | Inr field3 \<Rightarrow>
     (let timeoffirsthit = py_replace field3 ''['' [] in
      case overview_loop rt loglines counts0 of
        Inl e \<Rightarrow> Inl e
      | Inr c \<Rightarrow>
     (case lastres c of
        None \<Rightarrow> Inl UnboundLocalError
      | Some lastrequest \<Rightarrow>
     (case timeSinceApacheDate rt timeoffirsthit of
        Inl e \<Rightarrow> Inl e
      | Inr (hourssince, minutessince) \<Rightarrow>
     (let divisor = (of_int hourssince :: rat) + of_int minutessince / 60 in
      if divisor = 0 then Inl ZeroDivisionError
      else Inr \<lparr>ov_cgiloc = script_name rt,
                ov_totalhits = length loglines,
                ov_timing = py_int ((clock1 rt - clock0 rt) * 1000),
                ov_logfile = logfile,
                ov_timeoffirsthit = timeoffirsthit,
                ov_hits = hits c,
                ov_lastrequest = lastrequest,
                ov_pagecount = pagecount c,
                ov_referrers = referrers c,
                ov_queries = queries c,
                ov_hourssince = hourssince,
                ov_minutessince = minutessince,
                ov_pagehitsperhour = py_round (of_nat (pagecount c) / divisor)\<rparr>))))))"

subsection \<open>tailLines\<close>

text \<open>
  The file is given by its content.  \<open>avgcharsperline\<close> is the integer 150 at first and a
  float after the first retry.  A float is modelled by a rational, or by \<open>PyInf\<close> for the
  float \<open>inf\<close> that a product beyond the largest double gives; the rounding of a
  product to 53 bits is not modelled.  \<open>avgcharsperline\<close> is positive throughout.
\<close>

datatype pynum = PyInt nat | PyFloat rat | PyInf

definition float_max :: rat where
  "float_max = (2 ^ 53 - 1) * 2 ^ 971"

definition to_float :: "rat \<Rightarrow> pynum" where
  "to_float x = (if float_max < x then PyInf else PyFloat x)"

text \<open>\<open>avgcharsperline * 1.3\<close>\<close>

definition times13 :: "pynum \<Rightarrow> pynum" where
  "times13 avg =
     (case avg of
        PyInt i \<Rightarrow> to_float (of_nat i * (13 / 10))
      | PyFloat x \<Rightarrow> to_float (x * (13 / 10))
      | PyInf \<Rightarrow> PyInf)"

text \<open>
  \<open>file.seek(-1 * avgcharsperline * linesback, 2)\<close> first turns its argument into a
  signed 64-bit integer.  An integer argument below \<open>-2^63\<close> raises OverflowError; a float
  is cut towards zero and raises OverflowError in the same case and for \<open>-inf\<close>; the
  product of \<open>inf\<close> and 0 is not a number and raises ValueError.  None of these is caught
  by \<open>except IOError\<close>.  The result here is the distance from the end of the file that
  the seek asks for.
\<close>

definition seek_distance :: "pynum \<Rightarrow> nat \<Rightarrow> error + nat" where
  "seek_distance avg linesback =
     (case avg of
        PyInt i \<Rightarrow>
          if int i * int linesback \<le> 2 ^ 63 then Inr (i * linesback) else Inl OverflowError
      | PyFloat x \<Rightarrow>
          if \<lfloor>x * of_nat linesback\<rfloor> \<le> 2 ^ 63 then Inr (nat \<lfloor>x * of_nat linesback\<rfloor>)
          else Inl OverflowError
      | PyInf \<Rightarrow> if linesback = 0 then Inl ValueError else Inl OverflowError)"

text \<open>
  The loop.  A seek to before the start of the file raises IOError, and the handler seeks
  to position 0.  The loop has no bound, so its result is an option: \<open>None\<close> if it were
  never left, \<open>Some (Inl e)\<close> when the exception \<open>e\<close> of \<open>seek\<close> escapes, \<open>Some (Inr lines)\<close>
  when the loop is left by \<open>break\<close>.
\<close>

partial_function (option) tail_read :: "pynum \<Rightarrow> string \<Rightarrow> nat \<Rightarrow> (error + string list) option" where
  "tail_read avgcharsperline content linesback =
     (case seek_distance avgcharsperline linesback of
        Inl e \<Rightarrow> Some (Inl e)
      | Inr distance \<Rightarrow>
          (let pos = (if distance \<le> length content then length content - distance else 0);
               atstart = (pos = 0);
               lines = py_split (drop pos content) [newline]
           in if linesback + 1 < length lines \<or> atstart then Some (Inr lines)
              else tail_read (times13 avgcharsperline) content linesback))"

declare tail_read.simps [code]

text \<open>The slice \<open>lines[start:len(lines)-1]\<close> after the loop.\<close>

definition tail_slice :: "string list \<Rightarrow> nat \<Rightarrow> string list" where
  "tail_slice lines linesback =
     (let start = (if linesback < length lines then length lines - linesback - 1 else 0)
      in take (length lines - 1 - start) (drop start lines))"

definition tailLines :: "string \<Rightarrow> nat \<Rightarrow> (error + string list) option" where
  "tailLines content linesback =
     (case tail_read (PyInt 150) content linesback of
        None \<Rightarrow> None
      | Some (Inl e) \<Rightarrow> Some (Inl e)
      | Some (Inr lines) \<Rightarrow> Some (Inr (tail_slice lines linesback)))"

text \<open>The content of a file of complete lines \<open>ls\<close>, each ended by a newline, followed by
  the characters \<open>rest\<close> of a line that is not ended yet.\<close>

definition file_of :: "string list \<Rightarrow> string \<Rightarrow> string" where
  "file_of ls rest = concat (map (\<lambda>l. l @ [newline]) ls) @ rest"

subsection \<open>The cache of host names\<close>

text \<open>
  The \<open>dbm\<close> file at the path \<open>database\<close>: its entries, and which of the operations on
  it raise.  Both users wrap every operation in a \<open>try\<close> with a bare \<open>except\<close>.
\<close>

datatype dbop = DbOpen | DbHasKey | DbGet | DbSet | DbClose

record dbm =
  entries :: "string \<rightharpoonup> string"
  fails :: "dbop \<Rightarrow> bool"

definition getDNS :: "dbm \<Rightarrow> string \<Rightarrow> string" where
  "getDNS db ip =
     (if fails db DbOpen then ip
      else if fails db DbHasKey then ip
      else (case entries db ip of
              Some host \<Rightarrow>
                if fails db DbGet then ip
                else if fails db DbClose then ip
                else host
            | None \<Rightarrow> ip))"

text \<open>The \<open>try\<close> block of \<open>ipdetails\<close> that stores a successful lookup; \<open>except: pass\<close>.\<close>

definition store_lookup :: "dbm \<Rightarrow> string \<Rightarrow> string \<Rightarrow> dbm" where
  "store_lookup db ip addr =
     (if fails db DbOpen then db
      else if fails db DbSet then db
      else db\<lparr>entries := (entries db)(ip \<mapsto> addr)\<rparr>)"

subsection \<open>ipdetails\<close>

text \<open>What \<open>ipdetails\<close> prints, one constructor for each \<open>print\<close> statement, with the
  values that are filled into its template.\<close>

datatype row =
    VisitHeader string string
  | ReferrerRow string
  | BrowserRow string
  | PageRow nat string string string
  | VisitFooter

record visit =
  counter :: nat
  pagecounter :: nat
  printed :: "row list"

text \<open>The block under \<open>if counter == 1\<close>.\<close>

definition first_hit_rows :: "string \<Rightarrow> error + row list" where
  "first_hit_rows line =
     (case py_index (py_split line [dquote]) (- 4) of
        Inl e \<Rightarrow> Inl e
      | Inr referrer \<Rightarrow>
     (case py_index (py_split line [dquote]) (- 2) of
        Inl e \<Rightarrow> Inl e
      | Inr user_agent \<Rightarrow>
          (let shown = (if 50 < length user_agent
                        then py_strip (take 50 user_agent) @ ''...''
                        else user_agent)
           in Inr ((if 1 < length referrer then [ReferrerRow referrer] else []) @
                   [BrowserRow shown]))))"

definition ipdetails_line :: "runtime \<Rightarrow> string \<Rightarrow> visit \<Rightarrow> string \<Rightarrow> error + visit" where
  "ipdetails_line rt ip v line =
     (case py_index (py_split line '' '') 0 of
        Inl e \<Rightarrow> Inl e
      | Inr address \<Rightarrow>
          if address = ip then
            (case py_index (py_split line '' '') 3 of
               Inl e \<Rightarrow> Inl e
             | Inr field3 \<Rightarrow>
            (let time0 = py_replace field3 ''['' [];
                 time1 = (if prefix (apachetoday rt) time0
                          then py_replace time0 (apachetoday rt @ '':'') ''today, ''
                          else time0)
             in case py_index (py_split line '' '') 6 of
                  Inl e \<Rightarrow> Inl e
                | Inr resource \<Rightarrow>
                    (case (if counter v = 1 then first_hit_rows line else Inr []) of
                       Inl e \<Rightarrow> Inl e
                     | Inr first \<Rightarrow>
                         if ispage resource
                         then Inr \<lparr>counter = counter v + 1,
                                   pagecounter = pagecounter v + 1,
                                   printed = printed v @ first @
                                     [PageRow (pagecounter v) time1 resource
                                        (quote rt resource)]\<rparr>
                         else Inr \<lparr>counter = counter v + 1,
                                   pagecounter = pagecounter v,
                                   printed = printed v @ first\<rparr>)))
          else Inr v)"

fun ipdetails_loop :: "runtime \<Rightarrow> string \<Rightarrow> string list \<Rightarrow> visit \<Rightarrow> error + visit" where
  "ipdetails_loop rt ip [] v = Inr v"
| "ipdetails_loop rt ip (line # rest) v =
     (case ipdetails_line rt ip v line of
        Inl e \<Rightarrow> Inl e
      | Inr v1 \<Rightarrow> ipdetails_loop rt ip rest v1)"

text \<open>
  \<open>ipdetails\<close> returns the cache as it leaves it, and either the exception that escapes
  or everything it has printed.
\<close>

definition ipdetails :: "runtime \<Rightarrow> dbm \<Rightarrow> string \<Rightarrow> string list \<Rightarrow> dbm \<times> (error + row list)" where
  "ipdetails rt db ip loglines =
     (let addr = (case gethostbyaddr rt ip of None \<Rightarrow> ''unknown host'' | Some host \<Rightarrow> host);
          db1 = (if addr \<noteq> ''unknown host'' then store_lookup db ip addr else db)
      in (db1,
          case ipdetails_loop rt ip loglines
                 \<lparr>counter = 1, pagecounter = 1, printed = [VisitHeader ip addr]\<rparr> of
            Inl e \<Rightarrow> Inl e
          | Inr v \<Rightarrow> Inr (printed v @ [VisitFooter])))"

subsection \<open>Notions used to state the properties\<close>

text \<open>
  A page hit is a line whose seventh space-delimited token matches \<open>ispage\<close> and which
  does not match \<open>ignorelines\<close>; its referrer is the fourth quote-delimited field from
  the end, read after \<open>\"\<close> has been replaced.
\<close>

definition page_hit :: "string \<Rightarrow> bool" where
  "page_hit line =
     (case py_index (py_split line '' '') 6 of
        Inl e \<Rightarrow> False
      | Inr resource \<Rightarrow> ispage resource \<and> \<not> ignorelines line)"

definition referrer_of :: "string \<Rightarrow> error + string" where
  "referrer_of line =
     py_index (py_split (py_replace line [backslash, dquote] ''&quot;'') [dquote]) (- 4)"

text \<open>The host of the line's referrer, as \<open>justdomain\<close> extracts it, contains the
  domain of the site.\<close>

definition own_referrer :: "string \<Rightarrow> bool" where
  "own_referrer line =
     (case referrer_of line of
        Inl e \<Rightarrow> False
      | Inr referrer \<Rightarrow> sublist thisdomain (justdomain referrer))"

text \<open>
  For \<open>ipdetails\<close>: the lines of one client address, the lines whose resource is a page
  (\<open>ipdetails\<close> does not ask \<open>ignorelines\<close>), and what the printed rows show: the numbers
  of the page rows, the browser rows and the referrer rows.
\<close>

definition from_address :: "string \<Rightarrow> string \<Rightarrow> bool" where
  "from_address ip line = (py_index (py_split line '' '') 0 = Inr ip)"

definition page_line :: "string \<Rightarrow> bool" where
  "page_line line =
     (case py_index (py_split line '' '') 6 of
        Inl e \<Rightarrow> False
      | Inr resource \<Rightarrow> ispage resource)"

fun page_numbers :: "row list \<Rightarrow> nat list" where
  "page_numbers [] = []"
| "page_numbers (PageRow n t r q # rows) = n # page_numbers rows"
| "page_numbers (other # rows) = page_numbers rows"

fun browsers :: "row list \<Rightarrow> string list" where
  "browsers [] = []"
| "browsers (BrowserRow b # rows) = b # browsers rows"
| "browsers (other # rows) = browsers rows"

fun referrer_rows :: "row list \<Rightarrow> string list" where
  "referrer_rows [] = []"
| "referrer_rows (ReferrerRow r # rows) = r # referrer_rows rows"
| "referrer_rows (other # rows) = referrer_rows rows"

subsection \<open>A runtime and log lines for the examples\<close>

text \<open>
  \<open>cgi.parse_qs(qs)\<close> as the Python 2 library defines it for its default arguments
  (blank values dropped, fields without \<open>=\<close> skipped): the fields are separated by
  \<open>&\<close> and \<open>;\<close>, a field is cut at its first \<open>=\<close>, \<open>+\<close> stands for a space, and the
  values of a name are collected in order.  The decoding of percent escapes,
  \<open>urllib.unquote\<close>, is a parameter.
\<close>

fun split_once :: "string \<Rightarrow> char \<Rightarrow> string list" where
  "split_once [] sep = [[]]"
| "split_once (c # cs) sep =
     (if c = sep then [[], cs] else (let r = split_once cs sep in (c # hd r) # tl r))"

definition parse_qsl :: "(string \<Rightarrow> string) \<Rightarrow> string \<Rightarrow> (string \<times> string) list" where
  "parse_qsl unquote qs =
     concat (map (\<lambda>name_value.
        (case split_once name_value (CHR ''='') of
           [name, val] \<Rightarrow>
             if val \<noteq> [] then [(unquote (py_replace name ''+'' '' ''),
                                  unquote (py_replace val ''+'' '' ''))]
             else []
         | _ \<Rightarrow> []))
       (concat (map (\<lambda>s1. py_split s1 '';'') (py_split qs ''&''))))"

definition cgi_parse_qs :: "(string \<Rightarrow> string) \<Rightarrow> string \<Rightarrow> (string \<rightharpoonup> string list)" where
  "cgi_parse_qs unquote qs =
     foldl (\<lambda>d (name, val). d(name \<mapsto> dict_get d name [] @ [val])) Map.empty
       (parse_qsl unquote qs)"

text \<open>
  A runtime for the examples: the clock stands at 2 hours and 50 seconds after the one
  timestamp that \<open>strptime\<close> accepts; one address has a host name; no example contains
  a percent escape or a character that \<open>urllib.quote\<close> would change.
\<close>

definition rt0 :: runtime where
  "rt0 = \<lparr>script_name = ''/cgi-bin/pea.py'', clock0 = 1000, clock1 = 1000 + 1 / 4,
          localnow = 7250,
          strptime_mktime = (\<lambda>s. if s = ''06/Nov/2026:10:00:00'' then Some 0 else None),
          parse_qs = cgi_parse_qs (\<lambda>s. s),
          apachetoday = ''06/Nov/2026'',
          gethostbyaddr = (\<lambda>a. if a = ''203.0.113.5'' then Some ''host5.example.org''
                                else None),
          quote = (\<lambda>s. s)\<rparr>"

text \<open>A line in the combined log format of Apache.\<close>

definition logline :: "string \<Rightarrow> string \<Rightarrow> string \<Rightarrow> string \<Rightarrow> string \<Rightarrow> string" where
  "logline address stamp resource referrer agent =
     address @ '' - - ['' @ stamp @ '' +0000] '' @ [dquote] @ ''GET '' @ resource @
     '' HTTP/1.1'' @ [dquote] @ '' 200 512 '' @ [dquote] @ referrer @ [dquote] @ '' '' @
     [dquote] @ agent @ [dquote]"

definition line_search :: string where
  "line_search = logline ''203.0.113.5'' ''06/Nov/2026:10:00:00'' ''/docs/''
     ''http://www.google.com/search?q=Django+Book'' ''Mozilla/5.0''"

definition line_own :: string where
  "line_own = logline ''203.0.113.6'' ''06/Nov/2026:10:00:07'' ''/docs/''
     ''http://www.djangobook.com/'' ''Mozilla/5.0''"

definition line_image :: string where
  "line_image = logline ''203.0.113.5'' ''06/Nov/2026:10:00:09'' ''/logo.png''
     ''http://www.djangobook.com/docs/'' ''Mozilla/5.0''"

definition line_ignored :: string where
  "line_ignored = logline ''24.124.4.220'' ''06/Nov/2026:10:00:11'' ''/docs/''
     ''http://www.google.com/search?q=django'' ''Mozilla/5.0''"

definition line_short :: string where
  "line_short = ''203.0.113.7 - - [06/Nov/2026:10:00:13 +0000]''"

text \<open>The line set of most examples: two page hits, one hit that is no page, and one
  line that \<open>ignorelines\<close> matches.\<close>

definition example_lines :: "string list" where
  "example_lines = [line_search, line_own, line_image, line_ignored]"

text \<open>Caches for the examples: an empty one, one with an entry, and one with the same
  entry whose \<open>close\<close> raises.\<close>

definition db_empty :: dbm where
  "db_empty = \<lparr>entries = Map.empty, fails = (\<lambda>op. False)\<rparr>"

definition db_cached :: dbm where
  "db_cached = \<lparr>entries = [''203.0.113.5'' \<mapsto> ''host5.example.org''],
                fails = (\<lambda>op. False)\<rparr>"

definition db_broken :: dbm where
  "db_broken = \<lparr>entries = [''203.0.113.5'' \<mapsto> ''host5.example.org''],
                fails = (\<lambda>op. op = DbClose)\<rparr>"

text \<open>A first hit without referrer and with a user agent of 70 characters.\<close>

definition line_longagent :: string where
  "line_longagent = logline ''203.0.113.9'' ''05/Nov/2026:23:59:59'' ''/x/'' ''-''
     ''Mozilla/5.0 (X11; Linux x86_64) AppleWebKit/537.36 (KHTML, like Gecko)''"

text \<open>A visit of three hits from one address, the second of which is not a page, among
  a hit from another address.\<close>

definition line_second :: string where
  "line_second = logline ''203.0.113.5'' ''06/Nov/2026:10:00:15'' ''/about/'' ''-''
     ''Mozilla/5.0''"

definition visit_lines :: "string list" where
  "visit_lines = [line_search, line_own, line_image, line_second]"

text \<open>Two more runtimes: a later run, and a run less than a minute after the timestamp
  of the first hit.\<close>

definition rt_later :: runtime where
  "rt_later = rt0\<lparr>clock0 := 2000, clock1 := 2001, localnow := 9000\<rparr>"

definition rt_fresh :: runtime where
  "rt_fresh = rt0\<lparr>localnow := 59\<rparr>"

section \<open>Properties\<close>

subsection \<open>Splitting\<close>

lemma py_split_not_Nil: "py_split s sep \<noteq> []"
  by (induction s sep rule: py_split.induct) (auto simp: Let_def)

lemma py_split_absent: "\<not> sublist sep s \<Longrightarrow> py_split s sep = [s]"
proof (induction s sep rule: py_split.induct)
  case (1 sep)
  then show ?case by simp
next
  case (2 c cs sep)
  from "2.prems" have np: "\<not> prefix sep (c # cs)" and ns: "\<not> sublist sep cs"
    by (auto simp: sublist_Cons_right)
  from ns "2.IH"(2) np have "py_split cs sep = [cs]" by simp
  with np show ?case by simp
qed

lemma prefix_short_append:
  assumes "prefix sep (p @ sep @ s)" and "p \<noteq> []"
  shows "prefix sep (p @ butlast sep)"
proof (cases "sep = []")
  case True
  then show ?thesis by simp
next
  case False
  have len: "length sep \<le> length (p @ butlast sep)"
    using assms(2) False by (cases p) auto
  have "prefix (p @ butlast sep) (p @ sep @ s)"
    by (simp add: prefix_def) (metis False append_assoc append_butlast_last_id)
  with assms(1) len show ?thesis
    by (metis prefix_length_prefix)
qed

lemma py_split_first:
  assumes "sep \<noteq> []"
  shows "\<not> sublist sep (p @ butlast sep) \<Longrightarrow> py_split (p @ sep @ s) sep = p # py_split s sep"
proof (induction p)
  case Nil
  from assms obtain x xs where sep: "sep = x # xs" by (cases sep) auto
  show ?case using assms by (simp add: sep)
next
  case (Cons c p)
  have np: "\<not> prefix sep ((c # p) @ sep @ s)"
  proof
    assume "prefix sep ((c # p) @ sep @ s)"
    then have "prefix sep ((c # p) @ butlast sep)"
      by (rule prefix_short_append) simp
    with Cons.prems show False by auto
  qed
  from Cons.prems have "\<not> sublist sep (p @ butlast sep)"
    by (auto simp: sublist_Cons_right)
  then have "py_split (p @ sep @ s) sep = p # py_split s sep" by (rule Cons.IH)
  with np show ?case by simp
qed

lemma hd_py_split_char: "hd (py_split s [c]) = takeWhile (\<lambda>x. x \<noteq> c) s"
  by (induction s) (auto simp: Let_def)

lemma takeWhile_hd_split2:
  "takeWhile (\<lambda>x. x \<noteq> c) (hd (py_split s [c, c])) = takeWhile (\<lambda>x. x \<noteq> c) s"
  by (induction s "[c, c]" rule: py_split.induct) (auto simp: Let_def)

lemma py_index_0: "xs \<noteq> [] \<Longrightarrow> py_index xs 0 = Inr (hd xs)"
  by (cases xs) (auto simp: py_index_def)

lemma py_index_1_single: "py_index [x] 1 = Inl IndexError"
  by (simp add: py_index_def)

lemma py_index_1_Cons: "ys \<noteq> [] \<Longrightarrow> py_index (x # ys) 1 = Inr (hd ys)"
  by (cases ys) (auto simp: py_index_def)

lemma justdomain_absent: "\<not> sublist ''//'' url \<Longrightarrow> justdomain url = ''bad referrer''"
  by (simp add: justdomain_def py_split_absent py_index_1_single)

lemma justdomain_present:
  assumes "\<not> sublist ''//'' (p @ ''/'')"
  shows "justdomain (p @ ''//'' @ s) = takeWhile (\<lambda>c. c \<noteq> CHR ''/'') s"
proof -
  have "py_split (p @ ''//'' @ s) ''//'' = p # py_split s ''//''"
    using assms by (intro py_split_first) auto
  then have "py_index (py_split (p @ ''//'' @ s) ''//'') 1 = Inr (hd (py_split s ''//''))"
    by (simp add: py_index_1_Cons py_split_not_Nil)
  then show ?thesis
    by (simp add: justdomain_def py_index_0 py_split_not_Nil hd_py_split_char takeWhile_hd_split2)
qed

lemma py_split_char_Cons:
  "py_split (x # xs) [c] =
     (if x = c then [] # py_split xs [c]
      else (x # hd (py_split xs [c])) # tl (py_split xs [c]))"
  by (simp add: Let_def)

lemma sublist_single: "sublist [c] s \<longleftrightarrow> c \<in> set s"
  by (induction s) (auto simp: sublist_Cons_right)

lemma py_split_line:
  assumes "c \<notin> set l"
  shows "py_split (l @ c # s) [c] = l # py_split s [c]"
  using assms py_split_first [of "[c]" l s] by (simp add: sublist_single)

lemma py_split_file:
  assumes "\<forall>l \<in> set ls. c \<notin> set l" and "c \<notin> set rest"
  shows "py_split (concat (map (\<lambda>l. l @ [c]) ls) @ rest) [c] = ls @ [rest]"
  using assms(1)
proof (induction ls)
  case Nil
  from assms(2) show ?case by (simp add: py_split_absent sublist_single)
next
  case (Cons l ls)
  then show ?case by (simp add: py_split_line)
qed

lemma py_split_append:
  "py_split (p @ s) [c] =
     butlast (py_split p [c]) @ [last (py_split p [c]) @ hd (py_split s [c])] @ tl (py_split s [c])"
proof (induction p)
  case Nil
  have "py_split s [c] \<noteq> []" by (rule py_split_not_Nil)
  then show ?case by simp
next
  case (Cons x p)
  obtain a as where P: "py_split p [c] = a # as"
    using py_split_not_Nil [of p "[c]"] by (cases "py_split p [c]") auto
  from Cons have R: "py_split (p @ s) [c] =
      butlast (a # as) @ [last (a # as) @ hd (py_split s [c])] @ tl (py_split s [c])"
    by (simp only: P)
  show ?case
    by (cases "x = c"; cases as)
      (simp_all add: py_split_char_Cons P R del: py_split.simps)
qed

subsection \<open>justdomain\<close>

text \<open>
  Claim C10.  \<open>justdomain\<close> returns a string for every input string (the IndexError
  of either subscript is caught inside).  If the input does not contain \<open>//\<close> the
  result is the literal \<open>'bad referrer'\<close>.  If it does, and \<open>p\<close> is what precedes
  the first \<open>//\<close> (no occurrence of \<open>//\<close> begins inside \<open>p\<close>) and \<open>s\<close> is what
  follows it, the result is \<open>s\<close> up to its first \<open>/\<close>, or all of \<open>s\<close> if it has none.
\<close>

theorem justdomain_total:
  "(\<not> sublist ''//'' url \<longrightarrow> justdomain url = ''bad referrer'') \<and>
   (\<forall>p s. url = p @ ''//'' @ s \<and> \<not> sublist ''//'' (p @ ''/'')
      \<longrightarrow> justdomain url = takeWhile (\<lambda>c. c \<noteq> CHR ''/'') s)"
  using justdomain_absent justdomain_present by blast

theorem justdomain_total_witness:
  "\<not> sublist ''//'' ''http:/'' \<and>
   justdomain ''http://www.djangobook.com/en/'' = ''www.djangobook.com'' \<and>
   \<not> sublist ''//'' ''-'' \<and> justdomain ''-'' = ''bad referrer''"
proof -
  have a: "\<not> sublist ''//'' ''http:/''" by (simp add: sublist_code)
  have b: "\<not> sublist ''//'' ''-''" by (simp add: sublist_code)
  have c: "''http://www.djangobook.com/en/'' = ''http:'' @ ''//'' @ ''www.djangobook.com/en/''"
    by simp
  from justdomain_total [of "''http://www.djangobook.com/en/''"] a c
  have "justdomain ''http://www.djangobook.com/en/'' =
        takeWhile (\<lambda>c. c \<noteq> CHR ''/'') ''www.djangobook.com/en/''"
    by (metis append_Cons append_Nil)
  moreover from justdomain_total [of "''-''"] b
  have "justdomain ''-'' = ''bad referrer''" by blast
  ultimately show ?thesis using a b by simp
qed

subsection \<open>The examples, evaluated\<close>

lemma example_overview:
  "case getOverview rt0 example_lines of
     Inl e \<Rightarrow> False
   | Inr ov \<Rightarrow> ov_pagecount ov = 2 \<and> ov_totalhits ov = 4 \<and>
       ov_hits ov ''/docs/'' = Some 2 \<and> ov_queries ov ''django book'' = Some 1 \<and>
       ov_referrers ov = [(''http://www.google.com/search?q=Django+Book'', PyStr ''django book'')] \<and>
       ov_lastrequest ov = ''/docs/''"
  by code_simp

lemma example_overview_later:
  "case getOverview rt_later example_lines of
     Inl e \<Rightarrow> False
   | Inr ov \<Rightarrow> ov_pagecount ov = 2 \<and> ov_hourssince ov = 2 \<and> ov_minutessince ov = 30"
  by code_simp

lemma example_page_hits: "filter page_hit example_lines = [line_search, line_own]"
  by code_simp

lemma example_kept: "filter (\<lambda>l. \<not> ignorelines l) example_lines = [line_search, line_own, line_image]"
  by code_simp

lemma example_own: "filter (\<lambda>l. \<not> own_referrer l) example_lines = [line_search, line_ignored]"
  by code_simp

lemma example_wellformed:
  "list_all (\<lambda>l. 7 \<le> length (py_split l '' '')) example_lines \<and>
   list_all (\<lambda>l. 4 \<le> length (py_split (py_replace l [backslash, dquote] ''&quot;'') [dquote]))
     example_lines"
  by code_simp

lemma example_short: "length (py_split line_short '' '') = 5"
  by code_simp

lemma example_short_run:
  "case getOverview rt0 [line_search, line_short] of Inl e \<Rightarrow> e = IndexError | Inr ov \<Rightarrow> False"
  by code_simp

lemma example_single_run:
  "case getOverview rt0 [line_search] of Inl e \<Rightarrow> False | Inr ov \<Rightarrow> ov_pagecount ov = 1"
  by code_simp

lemma example_fresh_run:
  "case getOverview rt_fresh [line_search] of
     Inl e \<Rightarrow> e = ZeroDivisionError | Inr ov \<Rightarrow> False"
  by code_simp

lemma example_fresh_time:
  "timeSinceApacheDate rt_fresh ''06/Nov/2026:10:00:00'' = Inr (0, 0)"
  by code_simp

lemma example_image: "filter page_hit [line_image] = []"
  by code_simp

lemma timeSinceApacheDate_zero:
  assumes "strptime_mktime rt s = Some t" and "0 \<le> localnow rt - t" and "localnow rt - t < 60"
  shows "timeSinceApacheDate rt s = Inr (0, 0)"
proof -
  define d where "d = localnow rt - t"
  have d: "0 \<le> d" "d < 60" using assms by (simp_all add: d_def)
  have a: "\<lfloor>(of_int d :: rat) / 60 / 60\<rfloor> = 0"
    using d by (simp add: floor_eq_iff)
  have b: "\<lfloor>(of_int d :: rat) / 60\<rfloor> = 0"
    using d by (simp add: floor_eq_iff)
  show ?thesis
    using assms(1) a b d by (simp add: timeSinceApacheDate_def Let_def py_int_def d_def [symmetric])
qed

lemma example_visit:
  "snd (ipdetails rt0 db_empty ''203.0.113.5'' visit_lines) =
     Inr [VisitHeader ''203.0.113.5'' ''host5.example.org'',
          ReferrerRow ''http://www.google.com/search?q=Django+Book'',
          BrowserRow ''Mozilla/5.0'',
          PageRow 1 ''today, 10:00:00'' ''/docs/'' ''/docs/'',
          PageRow 2 ''today, 10:00:15'' ''/about/'' ''/about/'',
          VisitFooter]"
  by code_simp

lemma example_visit_hits:
  "filter (from_address ''203.0.113.5'') visit_lines = [line_search, line_image, line_second]"
  by code_simp

lemma example_visit_pages:
  "filter page_line [line_search, line_image, line_second] = [line_search, line_second]"
  by code_simp

lemma example_no_visit:
  "snd (ipdetails rt0 db_empty ''198.51.100.1'' visit_lines) =
     Inr [VisitHeader ''198.51.100.1'' ''unknown host'', VisitFooter]"
  by code_simp

lemma example_no_visit_hits: "filter (from_address ''198.51.100.1'') visit_lines = []"
  by code_simp

lemma example_tail:
  "tailLines (file_of [''one'', ''two'', ''three''] ''par'') 2 = Some (Inr [''two'', ''three''])"
  by code_simp

lemma example_tail_retry:
  "map_option (map_sum id (map length))
     (tailLines (file_of [replicate 200 (CHR ''x''), replicate 160 (CHR ''y'')] []) 1) =
   Some (Inr [160])"
  by code_simp

subsection \<open>The loop of getOverview\<close>

lemma count_query_pagecount [simp]: "pagecount (count_query rt r c) = pagecount c"
  by (simp add: count_query_def Let_def split: option.splits list.splits)

lemma count_query_hits [simp]: "hits (count_query rt r c) = hits c"
  by (simp add: count_query_def Let_def split: option.splits list.splits)

lemma count_query_lastres [simp]: "lastres (count_query rt r c) = lastres c"
  by (simp add: count_query_def Let_def split: option.splits list.splits)

lemma overview_line_skip:
  "\<not> page_hit line \<Longrightarrow> overview_line rt c line = Inr c1 \<Longrightarrow> c1 = c"
  by (auto simp: overview_line_def page_hit_def split: sum.splits if_splits)

lemma overview_line_pagecount:
  "overview_line rt c line = Inr c1 \<Longrightarrow>
   pagecount c1 = pagecount c + (if page_hit line then 1 else 0)"
  by (auto simp: overview_line_def page_hit_def Let_def split: sum.splits if_splits)

lemma overview_loop_pagecount:
  "overview_loop rt ls c = Inr c1 \<Longrightarrow> pagecount c1 = pagecount c + length (filter page_hit ls)"
proof (induction ls arbitrary: c)
  case Nil
  then show ?case by simp
next
  case (Cons l ls)
  from Cons.prems obtain c2 where l: "overview_line rt c l = Inr c2"
    and r: "overview_loop rt ls c2 = Inr c1"
    by (auto split: sum.splits)
  from Cons.IH [OF r] overview_line_pagecount [OF l] show ?case by simp
qed

lemma page_hit_not_ignored: "page_hit line \<Longrightarrow> \<not> ignorelines line"
  by (auto simp: page_hit_def split: sum.splits)

lemma overview_loop_filter_skip:
  assumes "\<And>l. \<not> keep l \<Longrightarrow> \<not> page_hit l"
  shows "overview_loop rt ls c = Inr c1 \<Longrightarrow> overview_loop rt (filter keep ls) c = Inr c1"
proof (induction ls arbitrary: c)
  case Nil
  then show ?case by simp
next
  case (Cons l ls)
  from Cons.prems obtain c2 where l: "overview_line rt c l = Inr c2"
    and r: "overview_loop rt ls c2 = Inr c1"
    by (auto split: sum.splits)
  show ?case
  proof (cases "keep l")
    case True
    with l Cons.IH [OF r] show ?thesis by simp
  next
    case False
    with assms have "\<not> page_hit l" by simp
    then have "c2 = c" using l by (rule overview_line_skip)
    with False Cons.IH [OF r] show ?thesis by simp
  qed
qed

lemma getOverview_Inr:
  assumes "getOverview rt ls = Inr ov"
  obtains c where "overview_loop rt ls counts0 = Inr c"
    and "ov_hits ov = hits c" and "ov_pagecount ov = pagecount c"
    and "ov_queries ov = queries c" and "ov_referrers ov = referrers c"
    and "lastres c = Some (ov_lastrequest ov)" and "ov_totalhits ov = length ls"
  using assms
  by (auto simp: getOverview_def Let_def split: sum.splits option.splits if_splits prod.splits)

text \<open>
  Claim C4.  In the overview of one pass, \<open>pagecount\<close> is the number of lines whose
  seventh space-delimited token matches \<open>ispage\<close> and which do not match
  \<open>ignorelines\<close>, each counted once.  The lines that match \<open>ignorelines\<close> contribute
  nothing: the loop over the line set without them ends with the same per-resource
  counts, the same \<open>pagecount\<close> and the same query counts.
\<close>

theorem pagecount_counts_page_hits:
  assumes "getOverview rt loglines = Inr ov"
  shows "ov_pagecount ov = length (filter page_hit loglines) \<and>
         (\<exists>c. overview_loop rt (filter (\<lambda>l. \<not> ignorelines l) loglines) counts0 = Inr c \<and>
              hits c = ov_hits ov \<and> pagecount c = ov_pagecount ov \<and>
              queries c = ov_queries ov)"
proof -
  from assms obtain c where c: "overview_loop rt loglines counts0 = Inr c"
    and eqs: "ov_hits ov = hits c" "ov_pagecount ov = pagecount c" "ov_queries ov = queries c"
    by (rule getOverview_Inr)
  from overview_loop_pagecount [OF c] eqs
  have "ov_pagecount ov = length (filter page_hit loglines)" by (simp add: counts0_def)
  moreover have "overview_loop rt (filter (\<lambda>l. \<not> ignorelines l) loglines) counts0 = Inr c"
    using c by (rule overview_loop_filter_skip [rotated]) (auto dest: page_hit_not_ignored)
  ultimately show ?thesis using eqs by simp
qed

theorem pagecount_counts_page_hits_witness:
  "\<exists>ov. getOverview rt0 example_lines = Inr ov \<and> ov_pagecount ov = 2 \<and>
      length (filter page_hit example_lines) = 2 \<and>
      (\<exists>c. overview_loop rt0 [line_search, line_own, line_image] counts0 = Inr c \<and>
           hits c = ov_hits ov \<and> pagecount c = 2 \<and> queries c = ov_queries ov)"
proof -
  from example_overview obtain ov where ov: "getOverview rt0 example_lines = Inr ov"
    and pc: "ov_pagecount ov = 2" by (auto split: sum.splits)
  from pagecount_counts_page_hits [OF ov] pc ov show ?thesis
    by (auto simp: example_kept)
qed

lemma py_index_Inl: "py_index xs i = Inl e \<Longrightarrow> e = IndexError"
  by (auto simp: py_index_def split: if_splits)

lemma py_index_in_set: "py_index xs i = Inr x \<Longrightarrow> x \<in> set xs"
  by (auto simp: py_index_def split: if_splits)

lemma py_index_short: "0 \<le> i \<Longrightarrow> length xs \<le> nat i \<Longrightarrow> py_index xs i = Inl IndexError"
  by (simp add: py_index_def)

lemma py_index_long: "0 \<le> i \<Longrightarrow> nat i < length xs \<Longrightarrow> \<exists>x. py_index xs i = Inr x"
  by (simp add: py_index_def)

lemma py_index_neg_long: "i < 0 \<Longrightarrow> nat (- i) \<le> length xs \<Longrightarrow> \<exists>x. py_index xs i = Inr x"
  by (simp add: py_index_def)

lemma py_find_ge: "- 1 \<le> py_find s sub"
  by (induction s) (auto simp: Let_def)

lemma py_find_absent: "py_find s sub = - 1 \<longleftrightarrow> \<not> sublist sub s"
proof (induction s)
  case Nil
  then show ?case by simp
next
  case (Cons c cs)
  have "py_find cs sub + 1 \<noteq> - 1" using py_find_ge [of cs sub] by arith
  with Cons show ?case by (auto simp: Let_def sublist_Cons_right)
qed

lemma py_split_parts:
  "prefix (hd (py_split s sep)) s \<and> (\<forall>x \<in> set (py_split s sep). sublist x s)"
proof (induction s sep rule: py_split.induct)
  case (1 sep)
  then show ?case by simp
next
  case (2 c cs sep)
  show ?case
  proof (cases "sep \<noteq> [] \<and> prefix sep (c # cs)")
    case True
    with "2.IH"(1) have "\<forall>x \<in> set (py_split (drop (length sep) (c # cs)) sep).
        sublist x (drop (length sep) (c # cs))" by simp
    then have "\<forall>x \<in> set (py_split (drop (length sep) (c # cs)) sep). sublist x (c # cs)"
      by (meson sublist_drop sublist_order.order_trans)
    with True show ?thesis by simp
  next
    case False
    with "2.IH"(2) have p: "prefix (hd (py_split cs sep)) cs"
      and a: "\<forall>x \<in> set (py_split cs sep). sublist x cs" by simp_all
    have "\<forall>x \<in> set (tl (py_split cs sep)). sublist x (c # cs)"
      using a by (meson list.set_sel(2) py_split_not_Nil sublist_Cons_right)
    moreover have "prefix (c # hd (py_split cs sep)) (c # cs)" using p by simp
    ultimately show ?thesis using False by (auto simp: Let_def)
  qed
qed

lemma py_split_sublist: "x \<in> set (py_split s sep) \<Longrightarrow> sublist x s"
  using py_split_parts by blast

lemma justdomain_sublist: "justdomain r = ''bad referrer'' \<or> sublist (justdomain r) r"
proof (cases "py_index (py_split r ''//'') 1")
  case (Inl e)
  then show ?thesis by (simp add: justdomain_def)
next
  case (Inr rest)
  then have rest: "sublist rest r" by (blast dest: py_index_in_set py_split_sublist)
  show ?thesis
  proof (cases "py_index (py_split rest ''/'') 0")
    case (Inl e)
    with Inr show ?thesis by (simp add: justdomain_def)
  next
    case Inr2: (Inr d)
    then have "sublist d rest" by (blast dest: py_index_in_set py_split_sublist)
    then have "sublist d r" using rest by (rule sublist_order.order_trans)
    with Inr Inr2 show ?thesis by (simp add: justdomain_def)
  qed
qed

lemma thisdomain_eq: "thisdomain = ''www.djangobook.com''"
  by code_simp

lemma own_host_found:
  assumes "sublist thisdomain (justdomain r)"
  shows "py_find r thisdomain \<noteq> - 1"
proof -
  have "\<not> sublist thisdomain ''bad referrer''"
    unfolding thisdomain_eq by code_simp
  with assms justdomain_sublist [of r] have "sublist (justdomain r) r" by auto
  with assms have "sublist thisdomain r" by (rule sublist_order.order_trans)
  then show ?thesis by (simp add: py_find_absent)
qed

lemma count_query_referrers:
  "\<exists>q. referrers (count_query rt r c) = referrers c @ [(r, q)]"
  by (simp add: count_query_def Let_def split: option.splits list.splits)

lemma count_query_cong:
  assumes "referrers c' = referrers c" and "queries c' = queries c"
  shows "referrers (count_query rt r c') = referrers (count_query rt r c) \<and>
         queries (count_query rt r c') = queries (count_query rt r c)"
  using assms by (simp add: count_query_def Let_def split: option.splits list.splits)

lemma overview_line_own:
  assumes "overview_line rt c line = Inr c1" and "own_referrer line"
  shows "referrers c1 = referrers c \<and> queries c1 = queries c"
proof (cases "page_hit line")
  case False
  with assms(1) have "c1 = c" by (simp add: overview_line_skip)
  then show ?thesis by simp
next
  case True
  from assms(2) obtain r where r: "referrer_of line = Inr r"
    and own: "sublist thisdomain (justdomain r)"
    by (auto simp: own_referrer_def split: sum.splits)
  from own have "py_find r thisdomain \<noteq> - 1" by (rule own_host_found)
  with assms(1) True r show ?thesis
    by (auto simp: overview_line_def page_hit_def referrer_of_def Let_def
        split: sum.splits if_splits)
qed

lemma overview_line_cong:
  assumes "overview_line rt c line = Inr c1"
    and "referrers c' = referrers c" and "queries c' = queries c"
  shows "\<exists>c1'. overview_line rt c' line = Inr c1' \<and>
           referrers c1' = referrers c1 \<and> queries c1' = queries c1"
  using assms count_query_cong [of "c'\<lparr>pagecount := x, hits := y, lastres := z\<rparr>"
      "c\<lparr>pagecount := x', hits := y', lastres := z'\<rparr>" for x y z x' y' z']
  by (auto simp: overview_line_def Let_def split: sum.splits if_splits)

lemma overview_loop_drop_own:
  assumes "overview_loop rt ls c = Inr c1"
    and "referrers c' = referrers c" and "queries c' = queries c"
  shows "\<exists>c1'. overview_loop rt (filter (\<lambda>l. \<not> own_referrer l) ls) c' = Inr c1' \<and>
           referrers c1' = referrers c1 \<and> queries c1' = queries c1"
  using assms
proof (induction ls arbitrary: c c')
  case Nil
  then show ?case by simp
next
  case (Cons l ls)
  from Cons.prems(1) obtain c2 where l: "overview_line rt c l = Inr c2"
    and r: "overview_loop rt ls c2 = Inr c1"
    by (auto split: sum.splits)
  show ?case
  proof (cases "own_referrer l")
    case True
    with l have "referrers c2 = referrers c \<and> queries c2 = queries c"
      by (rule overview_line_own)
    with Cons.prems have "referrers c' = referrers c2" "queries c' = queries c2" by simp_all
    from Cons.IH [OF r this] True show ?thesis by simp
  next
    case False
    from overview_line_cong [OF l Cons.prems(2,3)] obtain c2' where
      l': "overview_line rt c' l = Inr c2'" and
      eq: "referrers c2' = referrers c2" "queries c2' = queries c2" by blast
    from Cons.IH [OF r eq] False l' show ?thesis by simp
  qed
qed

lemma overview_line_referrers:
  assumes "overview_line rt c line = Inr c1"
  shows "referrers c1 = referrers c \<or>
         (\<exists>r q. py_find r thisdomain = - 1 \<and> referrers c1 = referrers c @ [(r, q)])"
proof (cases "page_hit line")
  case False
  with assms have "c1 = c" by (simp add: overview_line_skip)
  then show ?thesis by simp
next
  case True
  then obtain resource where res: "py_index (py_split line '' '') 6 = Inr resource"
    and page: "ispage resource \<and> \<not> ignorelines line"
    by (auto simp: page_hit_def split: sum.splits)
  define c2 where "c2 = c\<lparr>pagecount := pagecount c + 1,
      hits := (hits c)(resource \<mapsto> dict_get (hits c) resource 0 + 1),
      lastres := Some resource\<rparr>"
  have c2: "referrers c2 = referrers c" by (simp add: c2_def)
  from assms res page obtain r where
    "c1 = c2 \<or> (py_find r thisdomain = - 1 \<and> c1 = count_query rt r c2)"
    by (auto simp: overview_line_def Let_def c2_def split: sum.splits if_splits)
  then show ?thesis
  proof
    assume "c1 = c2"
    with c2 show ?thesis by simp
  next
    assume a: "py_find r thisdomain = - 1 \<and> c1 = count_query rt r c2"
    from count_query_referrers [of rt r c2] obtain q where
      "referrers (count_query rt r c2) = referrers c2 @ [(r, q)]" by blast
    with a c2 show ?thesis by auto
  qed
qed

lemma overview_line_foreign:
  assumes "overview_line rt c line = Inr c1"
    and "\<forall>(r, q) \<in> set (referrers c). \<not> sublist thisdomain (justdomain r)"
  shows "\<forall>(r, q) \<in> set (referrers c1). \<not> sublist thisdomain (justdomain r)"
proof -
  from overview_line_referrers [OF assms(1)] show ?thesis
  proof
    assume "referrers c1 = referrers c"
    with assms(2) show ?thesis by simp
  next
    assume "\<exists>r q. py_find r thisdomain = - 1 \<and> referrers c1 = referrers c @ [(r, q)]"
    then obtain r q where f: "py_find r thisdomain = - 1"
      and eq: "referrers c1 = referrers c @ [(r, q)]" by blast
    from f have "\<not> sublist thisdomain (justdomain r)" using own_host_found by blast
    with assms(2) eq show ?thesis by auto
  qed
qed

lemma overview_loop_foreign:
  assumes "overview_loop rt ls c = Inr c1"
    and "\<forall>(r, q) \<in> set (referrers c). \<not> sublist thisdomain (justdomain r)"
  shows "\<forall>(r, q) \<in> set (referrers c1). \<not> sublist thisdomain (justdomain r)"
  using assms
proof (induction ls arbitrary: c)
  case Nil
  then show ?case by simp
next
  case (Cons l ls)
  from Cons.prems(1) obtain c2 where l: "overview_line rt c l = Inr c2"
    and r: "overview_loop rt ls c2 = Inr c1"
    by (auto split: sum.splits)
  from overview_line_foreign [OF l Cons.prems(2)] Cons.IH [OF r] show ?case by blast
qed

text \<open>
  Claim C6.  A page hit whose referrer has a host that contains the domain of the site is
  neither appended to the referrer list nor searched for a query.  No entry of the
  referrer list has such a host, and the loop over the line set without the lines of such
  referrers ends with the same referrer list and the same query counts.
\<close>

theorem own_domain_referrers_excluded:
  assumes "getOverview rt loglines = Inr ov"
  shows "(\<forall>(r, q) \<in> set (ov_referrers ov). \<not> sublist thisdomain (justdomain r)) \<and>
         (\<exists>c. overview_loop rt (filter (\<lambda>l. \<not> own_referrer l) loglines) counts0 = Inr c \<and>
              referrers c = ov_referrers ov \<and> queries c = ov_queries ov)"
proof -
  from assms obtain c where c: "overview_loop rt loglines counts0 = Inr c"
    and eqs: "ov_referrers ov = referrers c" "ov_queries ov = queries c"
    by (rule getOverview_Inr)
  have "\<forall>(r, q) \<in> set (referrers c). \<not> sublist thisdomain (justdomain r)"
    using c by (rule overview_loop_foreign) (simp add: counts0_def)
  moreover from overview_loop_drop_own [OF c refl refl]
  have "\<exists>c'. overview_loop rt (filter (\<lambda>l. \<not> own_referrer l) loglines) counts0 = Inr c' \<and>
           referrers c' = referrers c \<and> queries c' = queries c" .
  ultimately show ?thesis using eqs by simp
qed

theorem own_domain_referrers_excluded_witness:
  "\<exists>ov. getOverview rt0 example_lines = Inr ov \<and>
      (\<forall>(r, q) \<in> set (ov_referrers ov). \<not> sublist thisdomain (justdomain r)) \<and>
      (\<exists>c. overview_loop rt0 [line_search, line_ignored] counts0 = Inr c \<and>
           referrers c = ov_referrers ov \<and> queries c = ov_queries ov \<and>
           referrers c = [(''http://www.google.com/search?q=Django+Book'', PyStr ''django book'')])"
proof -
  from example_overview obtain ov where ov: "getOverview rt0 example_lines = Inr ov"
    and r: "ov_referrers ov = [(''http://www.google.com/search?q=Django+Book'', PyStr ''django book'')]"
    by (auto split: sum.splits)
  from own_domain_referrers_excluded [OF ov] r ov show ?thesis
    by (auto simp: example_own)
qed

lemma count_query_parse_qs:
  "parse_qs rt1 = parse_qs rt2 \<Longrightarrow> count_query rt1 r c = count_query rt2 r c"
  by (simp add: count_query_def)

lemma overview_line_parse_qs:
  "parse_qs rt1 = parse_qs rt2 \<Longrightarrow> overview_line rt1 c l = overview_line rt2 c l"
  by (auto simp: overview_line_def Let_def count_query_parse_qs [of rt1 rt2] split: sum.splits)

lemma overview_loop_parse_qs:
  "parse_qs rt1 = parse_qs rt2 \<Longrightarrow> overview_loop rt1 ls c = overview_loop rt2 ls c"
  by (induction ls arbitrary: c)
    (auto simp: overview_line_parse_qs [of rt1 rt2] split: sum.splits)

text \<open>
  Claim C7.  Two runs over the same line set, each with its own clock readings and CGI
  environment (the library function \<open>parse_qs\<close> is the same in both): the loop ends in
  the same way in both, and two overviews that are returned agree in \<open>hits\<close>,
  \<open>pagecount\<close>, \<open>totalhits\<close> and \<open>queries\<close>.
\<close>

theorem overview_counts_repeatable:
  assumes "parse_qs rt1 = parse_qs rt2"
  shows "overview_loop rt1 loglines counts0 = overview_loop rt2 loglines counts0 \<and>
         (getOverview rt1 loglines = Inr ov1 \<and> getOverview rt2 loglines = Inr ov2 \<longrightarrow>
            ov_hits ov1 = ov_hits ov2 \<and> ov_pagecount ov1 = ov_pagecount ov2 \<and>
            ov_totalhits ov1 = ov_totalhits ov2 \<and> ov_queries ov1 = ov_queries ov2)"
proof -
  have loop: "overview_loop rt1 loglines counts0 = overview_loop rt2 loglines counts0"
    using assms by (rule overview_loop_parse_qs)
  have "ov_hits ov1 = ov_hits ov2 \<and> ov_pagecount ov1 = ov_pagecount ov2 \<and>
        ov_totalhits ov1 = ov_totalhits ov2 \<and> ov_queries ov1 = ov_queries ov2"
    if a: "getOverview rt1 loglines = Inr ov1" and b: "getOverview rt2 loglines = Inr ov2"
  proof -
    from a obtain c1 where c1: "overview_loop rt1 loglines counts0 = Inr c1"
      and e1: "ov_hits ov1 = hits c1" "ov_pagecount ov1 = pagecount c1"
        "ov_queries ov1 = queries c1" "ov_totalhits ov1 = length loglines"
      by (rule getOverview_Inr)
    from b obtain c2 where c2: "overview_loop rt2 loglines counts0 = Inr c2"
      and e2: "ov_hits ov2 = hits c2" "ov_pagecount ov2 = pagecount c2"
        "ov_queries ov2 = queries c2" "ov_totalhits ov2 = length loglines"
      by (rule getOverview_Inr)
    from loop c1 c2 have "c1 = c2" by simp
    with e1 e2 show ?thesis by simp
  qed
  with loop show ?thesis by blast
qed

theorem overview_counts_repeatable_witness:
  "parse_qs rt0 = parse_qs rt_later \<and>
   overview_loop rt0 example_lines counts0 = overview_loop rt_later example_lines counts0 \<and>
   (\<exists>ov1 ov2. getOverview rt0 example_lines = Inr ov1 \<and>
      getOverview rt_later example_lines = Inr ov2 \<and>
      ov_hourssince ov2 = 2 \<and> ov_minutessince ov2 = 30 \<and>
      ov_hits ov1 = ov_hits ov2 \<and> ov_pagecount ov1 = ov_pagecount ov2 \<and>
      ov_totalhits ov1 = ov_totalhits ov2 \<and> ov_queries ov1 = ov_queries ov2)"
proof -
  have p: "parse_qs rt0 = parse_qs rt_later" by (simp add: rt_later_def)
  from example_overview obtain ov1 where ov1: "getOverview rt0 example_lines = Inr ov1"
    by (auto split: sum.splits)
  from example_overview_later obtain ov2 where ov2: "getOverview rt_later example_lines = Inr ov2"
    and t: "ov_hourssince ov2 = 2" "ov_minutessince ov2 = 30"
    by (auto split: sum.splits)
  from overview_counts_repeatable [OF p, of example_lines ov1 ov2] p ov1 ov2 t
  show ?thesis by blast
qed

lemma overview_line_Inl: "overview_line rt c l = Inl e \<Longrightarrow> e = IndexError"
  by (auto simp: overview_line_def Let_def split: sum.splits if_splits dest: py_index_Inl)

lemma overview_loop_Inl: "overview_loop rt ls c = Inl e \<Longrightarrow> e = IndexError"
  by (induction ls arbitrary: c) (auto split: sum.splits dest: overview_line_Inl)

lemma overview_line_lastres:
  assumes "overview_line rt c l = Inr c1" and "page_hit l"
  shows "\<exists>r. py_index (py_split l '' '') 6 = Inr r \<and> lastres c1 = Some r"
  using assms
  by (auto simp: overview_line_def page_hit_def Let_def split: sum.splits if_splits)

lemma overview_loop_no_page_hit:
  "overview_loop rt ls c = Inr c1 \<Longrightarrow> filter page_hit ls = [] \<Longrightarrow> c1 = c"
proof (induction ls arbitrary: c)
  case Nil
  then show ?case by simp
next
  case (Cons l ls)
  from Cons.prems(1) obtain c2 where l: "overview_line rt c l = Inr c2"
    and r: "overview_loop rt ls c2 = Inr c1"
    by (auto split: sum.splits)
  from Cons.prems(2) have np: "\<not> page_hit l" and rest: "filter page_hit ls = []"
    by (auto split: if_splits)
  from np l have "c2 = c" by (rule overview_line_skip)
  with Cons.IH [OF r rest] show ?case by simp
qed

lemma overview_loop_lastres:
  "overview_loop rt ls c = Inr c1 \<Longrightarrow> filter page_hit ls \<noteq> [] \<Longrightarrow>
   \<exists>r. py_index (py_split (last (filter page_hit ls)) '' '') 6 = Inr r \<and> lastres c1 = Some r"
proof (induction ls arbitrary: c)
  case Nil
  then show ?case by simp
next
  case (Cons l ls)
  from Cons.prems(1) obtain c2 where l: "overview_line rt c l = Inr c2"
    and r: "overview_loop rt ls c2 = Inr c1"
    by (auto split: sum.splits)
  show ?case
  proof (cases "filter page_hit ls = []")
    case True
    with Cons.prems(2) have ph: "page_hit l" by (auto split: if_splits)
    from r True have "c1 = c2" by (rule overview_loop_no_page_hit)
    with overview_line_lastres [OF l ph] True ph show ?thesis by simp
  next
    case False
    with Cons.IH [OF r] show ?thesis by simp
  qed
qed

text \<open>
  Claim C9.  An overview that is returned has as \<open>lastrequest\<close> the resource of the
  last page hit of the line set, and there is such a page hit.  With no page hit in the
  line set \<open>lastres\<close> is never assigned and no overview is returned: the run ends in
  UnboundLocalError, unless an IndexError of the subscripts came first.
\<close>

theorem lastrequest_needs_page_hit:
  "(getOverview rt loglines = Inr ov \<longrightarrow>
      filter page_hit loglines \<noteq> [] \<and>
      py_index (py_split (last (filter page_hit loglines)) '' '') 6 = Inr (ov_lastrequest ov)) \<and>
   (filter page_hit loglines = [] \<longrightarrow>
      getOverview rt loglines = Inl IndexError \<or>
      getOverview rt loglines = Inl UnboundLocalError)"
proof (intro conjI impI)
  assume a: "getOverview rt loglines = Inr ov"
  then obtain c where c: "overview_loop rt loglines counts0 = Inr c"
    and lr: "lastres c = Some (ov_lastrequest ov)"
    by (rule getOverview_Inr)
  show ne: "filter page_hit loglines \<noteq> []"
  proof
    assume "filter page_hit loglines = []"
    with c have "c = counts0" by (rule overview_loop_no_page_hit)
    with lr show False by (simp add: counts0_def)
  qed
  from overview_loop_lastres [OF c ne] lr
  show "py_index (py_split (last (filter page_hit loglines)) '' '') 6 = Inr (ov_lastrequest ov)"
    by auto
next
  assume none: "filter page_hit loglines = []"
  have "lastres c = None" if "overview_loop rt loglines counts0 = Inr c" for c
    using overview_loop_no_page_hit [OF that none] by (simp add: counts0_def)
  then show "getOverview rt loglines = Inl IndexError \<or>
      getOverview rt loglines = Inl UnboundLocalError"
    by (auto simp: getOverview_def Let_def split: sum.splits option.splits
        dest: py_index_Inl overview_loop_Inl)
qed

theorem lastrequest_needs_page_hit_witness:
  "(\<exists>ov. getOverview rt0 example_lines = Inr ov \<and> filter page_hit example_lines \<noteq> [] \<and>
      py_index (py_split line_own '' '') 6 = Inr (ov_lastrequest ov) \<and>
      ov_lastrequest ov = ''/docs/'') \<and>
   filter page_hit [line_image] = [] \<and>
   (getOverview rt0 [line_image] = Inl IndexError \<or>
    getOverview rt0 [line_image] = Inl UnboundLocalError)"
proof -
  from example_overview obtain ov where ov: "getOverview rt0 example_lines = Inr ov"
    and lr: "ov_lastrequest ov = ''/docs/''"
    by (auto split: sum.splits)
  from lastrequest_needs_page_hit [of rt0 example_lines ov] ov lr
  have "\<exists>ov. getOverview rt0 example_lines = Inr ov \<and> filter page_hit example_lines \<noteq> [] \<and>
      py_index (py_split line_own '' '') 6 = Inr (ov_lastrequest ov) \<and>
      ov_lastrequest ov = ''/docs/''"
    by (auto simp: example_page_hits)
  moreover from lastrequest_needs_page_hit [of rt0 "[line_image]"] example_image
  have "getOverview rt0 [line_image] = Inl IndexError \<or>
    getOverview rt0 [line_image] = Inl UnboundLocalError" by blast
  ultimately show ?thesis using example_image by blast
qed

lemma overview_line_short:
  "length (py_split l '' '') < 7 \<Longrightarrow> overview_line rt c l = Inl IndexError"
  by (simp add: overview_line_def py_index_short)

lemma overview_loop_short:
  "\<exists>l \<in> set ls. length (py_split l '' '') < 7 \<Longrightarrow> overview_loop rt ls c = Inl IndexError"
proof (induction ls arbitrary: c)
  case Nil
  then show ?case by simp
next
  case (Cons l ls)
  show ?case
  proof (cases "overview_line rt c l")
    case (Inl e)
    then show ?thesis by (auto dest: overview_line_Inl)
  next
    case (Inr c2)
    then have "\<not> length (py_split l '' '') < 7" by (auto simp: overview_line_short)
    with Cons.prems have "\<exists>l \<in> set ls. length (py_split l '' '') < 7" by auto
    with Cons.IH Inr show ?thesis by simp
  qed
qed

lemma overview_line_wellformed:
  assumes "7 \<le> length (py_split l '' '')"
    and "page_hit l \<longrightarrow>
         4 \<le> length (py_split (py_replace l [backslash, dquote] ''&quot;'') [dquote])"
  shows "\<exists>c1. overview_line rt c l = Inr c1"
proof -
  from assms(1) obtain r where r: "py_index (py_split l '' '') 6 = Inr r"
    using py_index_long [of 6 "py_split l '' ''"] by auto
  show ?thesis
  proof (cases "page_hit l")
    case False
    with r show ?thesis by (auto simp: overview_line_def page_hit_def)
  next
    case True
    with assms(2) obtain ref where
      "py_index (py_split (py_replace l [backslash, dquote] ''&quot;'') [dquote]) (- 4) = Inr ref"
      using py_index_neg_long [of "- 4" "py_split (py_replace l [backslash, dquote] ''&quot;'') [dquote]"]
      by auto
    with r show ?thesis by (auto simp: overview_line_def Let_def)
  qed
qed

lemma overview_loop_wellformed:
  "\<forall>l \<in> set ls. 7 \<le> length (py_split l '' '') \<and>
      (page_hit l \<longrightarrow>
         4 \<le> length (py_split (py_replace l [backslash, dquote] ''&quot;'') [dquote])) \<Longrightarrow>
   \<exists>c1. overview_loop rt ls c = Inr c1"
proof (induction ls arbitrary: c)
  case Nil
  then show ?case by simp
next
  case (Cons l ls)
  from Cons.prems obtain c2 where "overview_line rt c l = Inr c2"
    using overview_line_wellformed [of l rt c] by auto
  with Cons.IH [of c2] Cons.prems show ?case by simp
qed

text \<open>
  Claim C1, as amended.  The loop of \<open>getOverview\<close> does not skip a malformed line: if
  some line of the line set has fewer than 7 space-delimited tokens, \<open>getOverview\<close>
  raises IndexError and returns no overview.  The loop runs to its end when every line
  has at least 7 such tokens and every page hit has at least 4 quote-delimited fields.
\<close>

theorem short_line_aborts:
  "((\<exists>l \<in> set loglines. length (py_split l '' '') < 7) \<longrightarrow>
      getOverview rt loglines = Inl IndexError) \<and>
   ((\<forall>l \<in> set loglines. 7 \<le> length (py_split l '' '') \<and>
        (page_hit l \<longrightarrow>
           4 \<le> length (py_split (py_replace l [backslash, dquote] ''&quot;'') [dquote]))) \<longrightarrow>
      (\<exists>c. overview_loop rt loglines counts0 = Inr c))"
proof (intro conjI impI)
  assume "\<exists>l \<in> set loglines. length (py_split l '' '') < 7"
  then have "overview_loop rt loglines counts0 = Inl IndexError" by (rule overview_loop_short)
  then show "getOverview rt loglines = Inl IndexError"
    by (auto simp: getOverview_def Let_def split: sum.splits dest: py_index_Inl)
next
  assume "\<forall>l \<in> set loglines. 7 \<le> length (py_split l '' '') \<and>
        (page_hit l \<longrightarrow>
           4 \<le> length (py_split (py_replace l [backslash, dquote] ''&quot;'') [dquote]))"
  then show "\<exists>c. overview_loop rt loglines counts0 = Inr c" by (rule overview_loop_wellformed)
qed

theorem short_line_aborts_witness:
  "length (py_split line_short '' '') < 7 \<and>
   getOverview rt0 [line_search, line_short] = Inl IndexError \<and>
   list_all (\<lambda>l. 7 \<le> length (py_split l '' '')) example_lines \<and>
   list_all (\<lambda>l. 4 \<le> length (py_split (py_replace l [backslash, dquote] ''&quot;'') [dquote]))
     example_lines \<and>
   (\<exists>c. overview_loop rt0 example_lines counts0 = Inr c)"
proof -
  have s: "length (py_split line_short '' '') < 7" by (simp add: example_short)
  then have "\<exists>l \<in> set [line_search, line_short]. length (py_split l '' '') < 7" by simp
  with short_line_aborts [of "[line_search, line_short]" rt0]
  have "getOverview rt0 [line_search, line_short] = Inl IndexError" by blast
  moreover from short_line_aborts [of example_lines rt0] example_wellformed
  have "\<exists>c. overview_loop rt0 example_lines counts0 = Inr c"
    by (simp add: list_all_iff)
  ultimately show ?thesis using s example_wellformed by simp
qed

text \<open>
  Claim C1 as the specification states it fails.  \<open>line_short\<close> has 5 tokens; with it
  after one well-formed page hit the run raises IndexError, while the run over the
  well-formed line alone returns an overview with \<open>pagecount = 1\<close>.
\<close>

theorem malformed_line_counterexample:
  "length (py_split line_short '' '') < 7 \<and>
   getOverview rt0 [line_search, line_short] = Inl IndexError \<and>
   map_sum id ov_pagecount (getOverview rt0 [line_search]) = Inr 1"
proof -
  from example_short_run have "getOverview rt0 [line_search, line_short] = Inl IndexError"
    by (auto split: sum.splits)
  moreover from example_single_run
  have "map_sum id ov_pagecount (getOverview rt0 [line_search]) = Inr 1"
    by (auto split: sum.splits)
  ultimately show ?thesis by (simp add: example_short)
qed

text \<open>
  Claim C2.  The run at the failing input: the first line is 59 seconds old, so
  \<open>timeSinceApacheDate\<close> returns 0 hours and 0 minutes, the divisor is \<open>0.0\<close> and the
  division raises ZeroDivisionError.  No fallback value is computed.
\<close>

theorem zero_elapsed_raises:
  "timeSinceApacheDate rt_fresh ''06/Nov/2026:10:00:00'' = Inr (0, 0) \<and>
   getOverview rt_fresh [line_search] = Inl ZeroDivisionError"
proof -
  from example_fresh_run have "getOverview rt_fresh [line_search] = Inl ZeroDivisionError"
    by (auto split: sum.splits)
  with example_fresh_time show ?thesis by simp
qed

subsection \<open>tailLines\<close>

lemma tail_slice_whole:
  "tail_slice (ls @ [rest]) n = drop (length ls - n) ls"
  by (simp add: tail_slice_def Let_def)

lemma tail_slice_suffix:
  assumes "ls @ [rest] = pre @ t" and "n < length t"
  shows "tail_slice (h # t) n = drop (length ls - n) ls"
proof -
  from assms(1) have "length (ls @ [rest]) = length (pre @ t)" by simp
  then have len: "length ls + 1 = length pre + length t" by simp
  from assms(1) have t: "t = drop (length pre) (ls @ [rest])" by simp
  have k: "length t - n - 1 + length pre = length ls - n" using len assms(2) by linarith
  have nle: "n \<le> length ls" using len assms(2) by linarith
  have "tail_slice (h # t) n = take n (drop (length t - n - 1) t)"
    using assms(2) by (simp add: tail_slice_def Let_def drop_Cons')
  also have "drop (length t - n - 1) t =
      drop (length t - n - 1) (drop (length pre) (ls @ [rest]))"
    using arg_cong [OF t, of "drop (length t - n - 1)"] .
  also have "\<dots> = drop (length ls - n) (ls @ [rest])"
    by (simp only: drop_drop k)
  also have "\<dots> = drop (length ls - n) ls @ [rest]" by simp
  also have "take n \<dots> = drop (length ls - n) ls" using nle by simp
  finally show ?thesis .
qed

lemma float_max_large: "2 ^ 64 \<le> float_max"
proof -
  have "(2::rat) ^ 64 * 1 \<le> 2 ^ 971 * (2 ^ 53 - 1)"
    by (rule mult_mono) (simp_all add: power_increasing)
  then show ?thesis by (simp add: float_max_def mult.commute)
qed

lemma tail_read_zero_inf: "tail_read PyInf content 0 = Some (Inl ValueError)"
  by (subst tail_read.simps) (simp add: seek_distance_def)

lemma tail_read_zero_step:
  "tail_read (PyFloat x) [CHR ''a'', newline] 0 =
   tail_read (times13 (PyFloat x)) [CHR ''a'', newline] 0"
  by (subst tail_read.simps) (simp add: seek_distance_def Let_def)

lemma tail_read_zero_float:
  assumes "150 \<le> x" and "x \<le> float_max"
  shows "tail_read (PyFloat x) [CHR ''a'', newline] 0 = Some (Inl ValueError)"
  using assms
proof (induction "nat \<lfloor>float_max - x\<rfloor>" arbitrary: x rule: less_induct)
  case less
  show ?case
  proof (cases "float_max < x * (13 / 10)")
    case True
    then have "times13 (PyFloat x) = PyInf" by (simp add: times13_def to_float_def)
    then show ?thesis by (simp add: tail_read_zero_step tail_read_zero_inf)
  next
    case False
    then have next_float: "times13 (PyFloat x) = PyFloat (x * (13 / 10))"
      by (simp add: times13_def to_float_def)
    have grow: "x + 1 \<le> x * (13 / 10)" using less.prems(1) by simp
    then have "float_max - x * (13 / 10) \<le> float_max - x - 1" by simp
    then have "\<lfloor>float_max - x * (13 / 10)\<rfloor> \<le> \<lfloor>float_max - x - 1\<rfloor>" by (rule floor_mono)
    then have a: "\<lfloor>float_max - x * (13 / 10)\<rfloor> \<le> \<lfloor>float_max - x\<rfloor> - 1" by simp
    have b: "0 \<le> \<lfloor>float_max - x * (13 / 10)\<rfloor>" using False by simp
    from a b have "nat \<lfloor>float_max - x * (13 / 10)\<rfloor> < nat \<lfloor>float_max - x\<rfloor>" by linarith
    moreover have "150 \<le> x * (13 / 10)" using less.prems(1) by simp
    moreover have "x * (13 / 10) \<le> float_max" using False by simp
    ultimately have "tail_read (PyFloat (x * (13 / 10))) [CHR ''a'', newline] 0 =
        Some (Inl ValueError)" by (rule less.hyps)
    with next_float show ?thesis by (simp add: tail_read_zero_step)
  qed
qed

lemma tail_read_zero_start:
  "tail_read (PyInt 150) [CHR ''a'', newline] 0 = Some (Inl ValueError)"
proof -
  have "(195::rat) \<le> 2 ^ 64" by simp
  with float_max_large have fm: "195 \<le> float_max" by linarith
  have "tail_read (PyInt 150) [CHR ''a'', newline] 0 =
      tail_read (times13 (PyInt 150)) [CHR ''a'', newline] 0"
    by (subst tail_read.simps) (simp add: seek_distance_def Let_def)
  also have "times13 (PyInt 150) = PyFloat 195"
    using fm by (simp add: times13_def to_float_def)
  also have "tail_read (PyFloat 195) [CHR ''a'', newline] 0 = Some (Inl ValueError)"
    using fm by (intro tail_read_zero_float) simp_all
  finally show ?thesis .
qed

lemma tail_read_huge:
  "tail_read (PyInt 150) content (10 ^ 17) = Some (Inl OverflowError)"
  by (subst tail_read.simps) (simp add: seek_distance_def)

text \<open>
  Within the range of \<open>file.seek\<close> the loop does return, and the slice is exact: for a
  positive count whose first seek distance fits in 64 bits, and a file of at most
  \<open>2\<^sup>6\<^sup>2\<close> characters, \<open>tailLines\<close> returns the last \<open>linesback\<close> of the lines ended
  by a newline, or all of them if there are fewer.
\<close>

lemma tail_read_float_returns:
  assumes n: "0 < n" and small: "length content \<le> 2 ^ 62"
  shows "150 \<le> x \<Longrightarrow> x * of_nat n \<le> 2 ^ 63 \<Longrightarrow>
         \<exists>pos. pos \<le> length content \<and>
           tail_read (PyFloat x) content n = Some (Inr (py_split (drop pos content) [newline])) \<and>
           (pos = 0 \<or> n + 1 < length (py_split (drop pos content) [newline]))"
proof (induction "length content - nat \<lfloor>x * of_nat n\<rfloor>" arbitrary: x rule: less_induct)
  case less
  define offset where "offset = nat \<lfloor>x * of_nat n\<rfloor>"
  define pos where "pos = (if offset \<le> length content then length content - offset else 0)"
  define lines where "lines = py_split (drop pos content) [newline]"
  have N: "(1::rat) \<le> of_nat n" using n by simp
  have x0: "0 \<le> x" using less.prems(1) by simp
  have xn: "x \<le> x * of_nat n" using mult_left_mono [OF N x0] by simp
  with less.prems(1) have big: "150 \<le> x * of_nat n" by linarith
  have fl: "\<lfloor>x * of_nat n\<rfloor> \<le> 2 ^ 63"
  proof -
    have "of_int \<lfloor>x * of_nat n\<rfloor> \<le> x * of_nat n" by (rule of_int_floor_le)
    with less.prems(2) have "(of_int \<lfloor>x * of_nat n\<rfloor> :: rat) \<le> of_int (2 ^ 63)" by simp
    then show ?thesis by (simp only: of_int_le_iff)
  qed
  have seek: "seek_distance (PyFloat x) n = Inr offset"
    using fl by (simp add: seek_distance_def offset_def)
  have step: "tail_read (PyFloat x) content n =
      (if n + 1 < length lines \<or> pos = 0 then Some (Inr lines)
       else tail_read (times13 (PyFloat x)) content n)"
    by (subst tail_read.simps) (simp add: seek Let_def pos_def lines_def)
  have pos_le: "pos \<le> length content" by (simp add: pos_def)
  show ?case
  proof (cases "n + 1 < length lines \<or> pos = 0")
    case True
    with step pos_le show ?thesis unfolding lines_def by auto
  next
    case False
    then have "pos \<noteq> 0" by simp
    then have offset_lt: "offset < length content" by (auto simp: pos_def split: if_splits)
    with small have "offset < 2 ^ 62" by linarith
    then have "int offset < 2 ^ 62" by (metis of_nat_less_iff of_nat_numeral of_nat_power)
    moreover have "0 \<le> \<lfloor>x * of_nat n\<rfloor>" using big by simp
    ultimately have "\<lfloor>x * of_nat n\<rfloor> < 2 ^ 62" by (simp add: offset_def)
    then have "x * of_nat n < of_int (2 ^ 62)" by (simp only: floor_less_iff)
    then have lt: "x * of_nat n < 2 ^ 62" by simp
    have eq: "x * (13 / 10) * of_nat n = (13 / 10) * (x * of_nat n)" by simp
    have next_n: "x * (13 / 10) * of_nat n \<le> 2 ^ 63" unfolding eq using lt by simp
    have "x * (13 / 10) \<le> x * (13 / 10) * of_nat n"
      using mult_left_mono [OF N, of "x * (13 / 10)"] x0 by simp
    with next_n have "x * (13 / 10) \<le> 2 ^ 63" by linarith
    moreover have "(2::rat) ^ 63 \<le> 2 ^ 64" by simp
    ultimately have "x * (13 / 10) \<le> float_max" using float_max_large by linarith
    then have next_float: "times13 (PyFloat x) = PyFloat (x * (13 / 10))"
      by (simp add: times13_def to_float_def)
    have "x * (13 / 10) * of_nat n = x * of_nat n + (3 / 10) * (x * of_nat n)"
      by (simp add: algebra_simps)
    with big have "x * of_nat n + 1 \<le> x * (13 / 10) * of_nat n" by simp
    then have "\<lfloor>x * of_nat n\<rfloor> + 1 \<le> \<lfloor>x * (13 / 10) * of_nat n\<rfloor>"
      by (metis floor_mono floor_add_int of_int_1)
    moreover have "0 \<le> \<lfloor>x * of_nat n\<rfloor>" using big by simp
    ultimately have grow: "offset < nat \<lfloor>x * (13 / 10) * of_nat n\<rfloor>"
      unfolding offset_def by linarith
    with offset_lt have "length content - nat \<lfloor>x * (13 / 10) * of_nat n\<rfloor>
        < length content - nat \<lfloor>x * of_nat n\<rfloor>"
      unfolding offset_def by linarith
    moreover have "150 \<le> x * (13 / 10)" using less.prems(1) by simp
    ultimately have "\<exists>pos. pos \<le> length content \<and>
        tail_read (PyFloat (x * (13 / 10))) content n =
          Some (Inr (py_split (drop pos content) [newline])) \<and>
        (pos = 0 \<or> n + 1 < length (py_split (drop pos content) [newline]))"
      using next_n by (rule less.hyps)
    with step False next_float show ?thesis by simp
  qed
qed

lemma tail_read_returns:
  assumes n: "0 < n" and small: "length content \<le> 2 ^ 62" and fits: "150 * int n \<le> 2 ^ 63"
  shows "\<exists>pos. pos \<le> length content \<and>
           tail_read (PyInt 150) content n = Some (Inr (py_split (drop pos content) [newline])) \<and>
           (pos = 0 \<or> n + 1 < length (py_split (drop pos content) [newline]))"
proof -
  define offset where "offset = 150 * n"
  define pos where "pos = (if offset \<le> length content then length content - offset else 0)"
  define lines where "lines = py_split (drop pos content) [newline]"
  have seek: "seek_distance (PyInt 150) n = Inr offset"
    using fits by (simp add: seek_distance_def offset_def)
  have step: "tail_read (PyInt 150) content n =
      (if n + 1 < length lines \<or> pos = 0 then Some (Inr lines)
       else tail_read (times13 (PyInt 150)) content n)"
    by (subst tail_read.simps) (simp add: seek Let_def pos_def lines_def)
  have pos_le: "pos \<le> length content" by (simp add: pos_def)
  show ?thesis
  proof (cases "n + 1 < length lines \<or> pos = 0")
    case True
    with step pos_le show ?thesis unfolding lines_def by auto
  next
    case False
    then have "pos \<noteq> 0" by simp
    then have "offset < length content" by (auto simp: pos_def split: if_splits)
    with small have "150 * n < 2 ^ 62" unfolding offset_def by linarith
    then have "(of_nat (150 * n) :: rat) < of_nat (2 ^ 62)" by (simp only: of_nat_less_iff)
    then have lt: "150 * (of_nat n :: rat) < 2 ^ 62" by simp
    have "(195::rat) \<le> 2 ^ 64" by simp
    with float_max_large have "195 \<le> float_max" by linarith
    then have next_float: "times13 (PyInt 150) = PyFloat 195"
      by (simp add: times13_def to_float_def)
    have "195 * (of_nat n :: rat) = (13 / 10) * (150 * of_nat n)" by simp
    with lt have "195 * (of_nat n :: rat) \<le> 2 ^ 63" by simp
    with tail_read_float_returns [OF n small, of 195]
    have "\<exists>pos. pos \<le> length content \<and>
        tail_read (PyFloat 195) content n = Some (Inr (py_split (drop pos content) [newline])) \<and>
        (pos = 0 \<or> n + 1 < length (py_split (drop pos content) [newline]))"
      by simp
    with step False next_float show ?thesis by simp
  qed
qed

lemma tail_read_file:
  assumes "0 < n" and "150 * int n \<le> 2 ^ 63" and "length (file_of ls rest) \<le> 2 ^ 62"
    and "\<forall>l \<in> set ls. newline \<notin> set l" and "newline \<notin> set rest"
  shows "\<exists>lines. tail_read (PyInt 150) (file_of ls rest) n = Some (Inr lines) \<and>
           tail_slice lines n = drop (length ls - n) ls"
proof -
  define content where "content = file_of ls rest"
  have whole: "py_split content [newline] = ls @ [rest]"
    unfolding content_def file_of_def using assms(4,5) by (rule py_split_file)
  from tail_read_returns [OF assms(1) _ assms(2), of content] assms(3) obtain pos where
    ret: "tail_read (PyInt 150) content n = Some (Inr (py_split (drop pos content) [newline]))"
    and stop: "pos = 0 \<or> n + 1 < length (py_split (drop pos content) [newline])"
    by (auto simp: content_def)
  define lines where "lines = py_split (drop pos content) [newline]"
  have "tail_slice lines n = drop (length ls - n) ls"
  proof (cases "pos = 0")
    case True
    then show ?thesis by (simp add: lines_def whole tail_slice_whole)
  next
    case False
    with stop have long: "n + 1 < length lines" by (simp add: lines_def)
    then obtain h t where ht: "lines = h # t" by (cases lines) auto
    with long have nt: "n < length t" by simp
    define pre where "pre = butlast (py_split (take pos content) [newline]) @
        [last (py_split (take pos content) [newline]) @ h]"
    have "py_split (take pos content @ drop pos content) [newline] = pre @ t"
      unfolding pre_def using ht
      by (subst py_split_append) (simp add: lines_def)
    then have "ls @ [rest] = pre @ t" by (simp add: whole)
    then have "tail_slice (h # t) n = drop (length ls - n) ls" using nt
      by (rule tail_slice_suffix)
    with ht show ?thesis by simp
  qed
  with ret show ?thesis by (simp add: lines_def content_def)
qed

lemma tailLines_returns_last_lines:
  assumes "0 < n" and "150 * int n \<le> 2 ^ 63" and "length (file_of ls rest) \<le> 2 ^ 62"
    and "\<forall>l \<in> set ls. newline \<notin> set l" and "newline \<notin> set rest"
  shows "tailLines (file_of ls rest) n = Some (Inr (drop (length ls - n) ls))"
  using tail_read_file [OF assms] by (auto simp: tailLines_def)

text \<open>
  Claim C3 does not hold of the code.  The docstring of \<open>tailLines\<close> promises the
  last \<open>linesback\<close> lines of the file.  With \<open>linesback = 0\<close> and a file holding the one
  line \<open>a\<close>, the seek distance is zero in every round, the text read is empty and never
  has more than \<open>linesback + 1\<close> parts, and the loop is left only when
  \<open>avgcharsperline\<close> has grown to infinity and \<open>file.seek\<close> raises \<open>ValueError\<close>:
  no list is returned, where the claim promises the empty one.  The same uncaught error
  of \<open>file.seek\<close> ends the call at once for a count whose first seek distance does not
  fit in 64 bits, on a file of three lines, all of which the claim promises.
\<close>

theorem tailLines_raises:
  "tailLines (file_of [''a''] []) 0 = Some (Inl ValueError) \<and>
   tailLines (file_of [''one'', ''two'', ''three''] []) (10 ^ 17) = Some (Inl OverflowError)"
proof -
  have "tailLines (file_of [''a''] []) 0 = Some (Inl ValueError)"
    by (simp add: tailLines_def file_of_def tail_read_zero_start)
  moreover have "tailLines (file_of [''one'', ''two'', ''three''] []) (10 ^ 17) =
      Some (Inl OverflowError)"
    by (simp only: tailLines_def tail_read_huge option.case sum.case)
  ultimately show ?thesis by (rule conjI)
qed

subsection \<open>The cache of host names\<close>

lemma getDNS_working:
  "\<forall>op. \<not> fails db op \<Longrightarrow>
   getDNS db ip = (case entries db ip of None \<Rightarrow> ip | Some host \<Rightarrow> host)"
  by (simp add: getDNS_def split: option.splits)

lemma getDNS_unchanged:
  "fails db DbOpen \<or> fails db DbHasKey \<or> fails db DbGet \<or> fails db DbClose \<or>
   entries db ip = None \<Longrightarrow> getDNS db ip = ip"
  by (auto simp: getDNS_def split: option.splits)

lemma ipdetails_output_any_cache:
  "snd (ipdetails rt db ip loglines) = snd (ipdetails rt db' ip loglines)"
  by (simp add: ipdetails_def Let_def)

lemma ipdetails_stores_success:
  assumes "gethostbyaddr rt ip = Some host" and "host \<noteq> ''unknown host''"
    and "\<forall>op. \<not> fails db op"
  shows "getDNS (fst (ipdetails rt db ip loglines)) ip = host"
  using assms by (simp add: ipdetails_def Let_def store_lookup_def getDNS_def)

lemma ipdetails_keeps_cache:
  "gethostbyaddr rt ip = None \<Longrightarrow> fst (ipdetails rt db ip loglines) = db"
  by (simp add: ipdetails_def Let_def)

text \<open>
  Claim C5.  \<open>getDNS\<close> returns a string for every address and every state of the cache:
  the stored host name when no operation on the cache raises and the address has an
  entry; the address itself when it has no entry or when an operation raises.  A failure
  to store a host name does not reach the request: what \<open>ipdetails\<close> prints or raises is
  the same as with a cache on which nothing fails.  A successful lookup is stored when the
  cache works, and a failed lookup stores nothing.
\<close>

theorem getDNS_never_raises:
  "((\<forall>op. \<not> fails db op) \<longrightarrow>
      getDNS db ip = (case entries db ip of None \<Rightarrow> ip | Some host \<Rightarrow> host)) \<and>
   (fails db DbOpen \<or> fails db DbHasKey \<or> fails db DbGet \<or> fails db DbClose \<or>
      entries db ip = None \<longrightarrow> getDNS db ip = ip) \<and>
   snd (ipdetails rt db ip loglines) = snd (ipdetails rt (db\<lparr>fails := (\<lambda>op. False)\<rparr>) ip loglines) \<and>
   (gethostbyaddr rt ip = Some host \<and> host \<noteq> ''unknown host'' \<and> (\<forall>op. \<not> fails db op) \<longrightarrow>
      getDNS (fst (ipdetails rt db ip loglines)) ip = host) \<and>
   (gethostbyaddr rt ip = None \<longrightarrow> fst (ipdetails rt db ip loglines) = db)"
  using getDNS_working [of db ip] getDNS_unchanged [of db ip]
    ipdetails_output_any_cache [of rt db ip loglines]
    ipdetails_stores_success [of rt ip host db loglines]
    ipdetails_keeps_cache [of rt ip db loglines]
  by blast

theorem getDNS_never_raises_witness:
  "getDNS db_cached ''203.0.113.5'' = ''host5.example.org'' \<and>
   getDNS db_empty ''203.0.113.5'' = ''203.0.113.5'' \<and>
   fails db_broken DbClose \<and> getDNS db_broken ''203.0.113.5'' = ''203.0.113.5'' \<and>
   snd (ipdetails rt0 db_broken ''203.0.113.5'' example_lines) =
     snd (ipdetails rt0 (db_broken\<lparr>fails := (\<lambda>op. False)\<rparr>) ''203.0.113.5'' example_lines) \<and>
   gethostbyaddr rt0 ''203.0.113.5'' = Some ''host5.example.org'' \<and>
   getDNS (fst (ipdetails rt0 db_empty ''203.0.113.5'' example_lines)) ''203.0.113.5'' =
     ''host5.example.org'' \<and>
   gethostbyaddr rt0 ''203.0.113.6'' = None \<and>
   fst (ipdetails rt0 db_empty ''203.0.113.6'' example_lines) = db_empty"
proof -
  have w: "\<forall>op. \<not> fails db_cached op" "\<forall>op. \<not> fails db_empty op"
    by (simp_all add: db_cached_def db_empty_def)
  have e: "entries db_cached ''203.0.113.5'' = Some ''host5.example.org''"
    "entries db_empty ''203.0.113.5'' = None"
    by (simp_all add: db_cached_def db_empty_def)
  have b: "fails db_broken DbClose" by (simp add: db_broken_def)
  have g: "gethostbyaddr rt0 ''203.0.113.5'' = Some ''host5.example.org''"
    "gethostbyaddr rt0 ''203.0.113.6'' = None"
    "''host5.example.org'' \<noteq> ''unknown host''"
    by (simp_all add: rt0_def)
  from getDNS_never_raises [of db_cached "''203.0.113.5''"] w e
  have 1: "getDNS db_cached ''203.0.113.5'' = ''host5.example.org''" by simp
  from getDNS_never_raises [of db_empty "''203.0.113.5''"] e
  have 2: "getDNS db_empty ''203.0.113.5'' = ''203.0.113.5''" by blast
  from getDNS_never_raises [of db_broken "''203.0.113.5''"] b
  have 3: "getDNS db_broken ''203.0.113.5'' = ''203.0.113.5''" by blast
  from getDNS_never_raises [where db = db_broken and ip = "''203.0.113.5''" and rt = rt0
      and loglines = example_lines]
  have 4: "snd (ipdetails rt0 db_broken ''203.0.113.5'' example_lines) =
     snd (ipdetails rt0 (db_broken\<lparr>fails := (\<lambda>op. False)\<rparr>) ''203.0.113.5'' example_lines)"
    by blast
  from getDNS_never_raises [where db = db_empty and ip = "''203.0.113.5''" and rt = rt0
      and loglines = example_lines and host = "''host5.example.org''"] w g
  have 5: "getDNS (fst (ipdetails rt0 db_empty ''203.0.113.5'' example_lines)) ''203.0.113.5'' =
     ''host5.example.org''" by blast
  from getDNS_never_raises [where db = db_empty and ip = "''203.0.113.6''" and rt = rt0
      and loglines = example_lines] g
  have 6: "fst (ipdetails rt0 db_empty ''203.0.113.6'' example_lines) = db_empty" by blast
  from 1 2 3 4 5 6 b g show ?thesis by simp
qed

subsection \<open>ipdetails\<close>

lemma page_numbers_append [simp]: "page_numbers (xs @ ys) = page_numbers xs @ page_numbers ys"
  by (induction xs rule: page_numbers.induct) simp_all

lemma browsers_append [simp]: "browsers (xs @ ys) = browsers xs @ browsers ys"
  by (induction xs rule: browsers.induct) simp_all

lemma referrer_rows_append [simp]: "referrer_rows (xs @ ys) = referrer_rows xs @ referrer_rows ys"
  by (induction xs rule: referrer_rows.induct) simp_all

lemma first_hit_rows_shape:
  assumes "first_hit_rows line = Inr rows"
  shows "\<exists>referrer user_agent.
           py_index (py_split line [dquote]) (- 4) = Inr referrer \<and>
           py_index (py_split line [dquote]) (- 2) = Inr user_agent \<and>
           page_numbers rows = [] \<and>
           referrer_rows rows = (if 1 < length referrer then [referrer] else []) \<and>
           browsers rows = [if 50 < length user_agent
                            then py_strip (take 50 user_agent) @ ''...'' else user_agent]"
proof (cases "py_index (py_split line [dquote]) (- 4)")
  case (Inl e)
  with assms show ?thesis by (simp add: first_hit_rows_def)
next
  case ref: (Inr referrer)
  show ?thesis
  proof (cases "py_index (py_split line [dquote]) (- 2)")
    case (Inl e)
    with assms ref show ?thesis by (simp add: first_hit_rows_def)
  next
    case ua: (Inr user_agent)
    from assms ref ua have rows: "rows =
        (if 1 < length referrer then [ReferrerRow referrer] else []) @
        [BrowserRow (if 50 < length user_agent
                     then py_strip (take 50 user_agent) @ ''...'' else user_agent)]"
      by (simp add: first_hit_rows_def Let_def)
    have "page_numbers rows = []" by (simp add: rows)
    moreover have "referrer_rows rows = (if 1 < length referrer then [referrer] else [])"
      by (simp add: rows)
    moreover have "browsers rows = [if 50 < length user_agent
        then py_strip (take 50 user_agent) @ ''...'' else user_agent]"
      by (simp add: rows)
    ultimately show ?thesis using ref ua by blast
  qed
qed

lemma py_strip_length: "length (py_strip s) \<le> length s"
proof -
  have "length (dropWhile is_space (rev (dropWhile is_space s))) \<le> length (rev (dropWhile is_space s))"
    by (rule length_dropWhile_le)
  also have "\<dots> \<le> length s" by (simp add: length_dropWhile_le)
  finally show ?thesis by (simp add: py_strip_def)
qed

lemma shown_agent_length:
  "length (if 50 < length ua then py_strip (take 50 ua) @ ''...'' else ua) \<le> 53"
proof (cases "50 < length ua")
  case True
  have "length (py_strip (take 50 ua)) \<le> length (take 50 ua)" by (rule py_strip_length)
  with True show ?thesis by simp
next
  case False
  then show ?thesis by simp
qed

lemma upt_shift: "[p ..< Suc (p + k)] = p # [Suc p ..< Suc (p + k)]"
  by (rule upt_conv_Cons) simp

lemma ipdetails_line_other:
  "\<not> from_address ip line \<Longrightarrow> ipdetails_line rt ip v line = Inr v1 \<Longrightarrow> v1 = v"
  by (auto simp: ipdetails_line_def from_address_def split: sum.splits if_splits)

lemma ipdetails_line_hit:
  assumes "from_address ip line" and "ipdetails_line rt ip v line = Inr v1"
  shows "counter v1 = counter v + 1 \<and>
         pagecounter v1 = pagecounter v + (if page_line line then 1 else 0) \<and>
         (\<exists>first. (if counter v = 1 then first_hit_rows line else Inr []) = Inr first \<and>
            page_numbers (printed v1) = page_numbers (printed v) @ page_numbers first @
              (if page_line line then [pagecounter v] else []) \<and>
            browsers (printed v1) = browsers (printed v) @ browsers first \<and>
            referrer_rows (printed v1) = referrer_rows (printed v) @ referrer_rows first)"
  using assms
  by (auto simp: ipdetails_line_def from_address_def page_line_def Let_def
      split: sum.splits if_splits)

lemma ipdetails_loop_later:
  assumes "ipdetails_loop rt ip ls v = Inr v1" and "counter v \<noteq> 1" and "0 < counter v"
  shows "page_numbers (printed v1) = page_numbers (printed v) @
           [pagecounter v ..< pagecounter v + length (filter page_line (filter (from_address ip) ls))] \<and>
         browsers (printed v1) = browsers (printed v) \<and>
         referrer_rows (printed v1) = referrer_rows (printed v)"
  using assms
proof (induction ls arbitrary: v)
  case Nil
  then show ?case by simp
next
  case (Cons l ls)
  from Cons.prems(1) obtain v2 where l: "ipdetails_line rt ip v l = Inr v2"
    and r: "ipdetails_loop rt ip ls v2 = Inr v1"
    by (auto split: sum.splits)
  show ?case
  proof (cases "from_address ip l")
    case False
    with l have "v2 = v" by (simp add: ipdetails_line_other)
    with r have "ipdetails_loop rt ip ls v = Inr v1" by simp
    from Cons.IH [OF this Cons.prems(2,3)] False show ?thesis by simp
  next
    case True
    from ipdetails_line_hit [OF True l] Cons.prems(2) have
      c: "counter v2 = counter v + 1" and
      p: "pagecounter v2 = pagecounter v + (if page_line l then 1 else 0)" and
      n: "page_numbers (printed v2) = page_numbers (printed v) @
            (if page_line l then [pagecounter v] else [])" and
      b: "browsers (printed v2) = browsers (printed v)" and
      f: "referrer_rows (printed v2) = referrer_rows (printed v)"
      by auto
    from c Cons.prems(3) have "counter v2 \<noteq> 1" "0 < counter v2" by simp_all
    from Cons.IH [OF r this] True n b f p show ?thesis
      by (cases "page_line l") (simp_all add: upt_shift del: upt_Suc)
  qed
qed

lemma ipdetails_loop_first:
  assumes "ipdetails_loop rt ip ls v = Inr v1" and "counter v = 1"
  shows "page_numbers (printed v1) = page_numbers (printed v) @
           [pagecounter v ..< pagecounter v + length (filter page_line (filter (from_address ip) ls))] \<and>
         (case filter (from_address ip) ls of
            [] \<Rightarrow> browsers (printed v1) = browsers (printed v) \<and>
                  referrer_rows (printed v1) = referrer_rows (printed v)
          | first # others \<Rightarrow>
              (\<exists>rows. first_hit_rows first = Inr rows \<and>
                 browsers (printed v1) = browsers (printed v) @ browsers rows \<and>
                 referrer_rows (printed v1) = referrer_rows (printed v) @ referrer_rows rows))"
  using assms
proof (induction ls arbitrary: v)
  case Nil
  then show ?case by simp
next
  case (Cons l ls)
  from Cons.prems(1) obtain v2 where l: "ipdetails_line rt ip v l = Inr v2"
    and r: "ipdetails_loop rt ip ls v2 = Inr v1"
    by (auto split: sum.splits)
  show ?case
  proof (cases "from_address ip l")
    case False
    with l have "v2 = v" by (simp add: ipdetails_line_other)
    with r have "ipdetails_loop rt ip ls v = Inr v1" by simp
    from Cons.IH [OF this Cons.prems(2)] False show ?thesis by simp
  next
    case True
    from ipdetails_line_hit [OF True l] Cons.prems(2) obtain rows where
      c: "counter v2 = 2" and
      p: "pagecounter v2 = pagecounter v + (if page_line l then 1 else 0)" and
      fr: "first_hit_rows l = Inr rows" and
      n: "page_numbers (printed v2) = page_numbers (printed v) @ page_numbers rows @
            (if page_line l then [pagecounter v] else [])" and
      b: "browsers (printed v2) = browsers (printed v) @ browsers rows" and
      f: "referrer_rows (printed v2) = referrer_rows (printed v) @ referrer_rows rows"
      by auto
    from first_hit_rows_shape [OF fr] have nopage: "page_numbers rows = []" by blast
    from c have "counter v2 \<noteq> 1" "0 < counter v2" by simp_all
    from ipdetails_loop_later [OF r this] True n b f p fr nopage show ?thesis
      by (cases "page_line l") (simp_all add: upt_shift del: upt_Suc)
  qed
qed

lemma ipdetails_rows:
  assumes "snd (ipdetails rt db ip loglines) = Inr out"
  shows "page_numbers out =
           [1 ..< 1 + length (filter page_line (filter (from_address ip) loglines))] \<and>
         (case filter (from_address ip) loglines of
            [] \<Rightarrow> browsers out = [] \<and> referrer_rows out = []
          | first # others \<Rightarrow>
              (\<exists>referrer user_agent.
                 py_index (py_split first [dquote]) (- 4) = Inr referrer \<and>
                 py_index (py_split first [dquote]) (- 2) = Inr user_agent \<and>
                 referrer_rows out = (if 1 < length referrer then [referrer] else []) \<and>
                 browsers out = [if 50 < length user_agent
                                 then py_strip (take 50 user_agent) @ ''...''
                                 else user_agent])) \<and>
         (\<forall>b \<in> set (browsers out). length b \<le> 53)"
proof -
  define addr where
    "addr = (case gethostbyaddr rt ip of None \<Rightarrow> ''unknown host'' | Some host \<Rightarrow> host)"
  define v0 where "v0 = \<lparr>counter = 1, pagecounter = 1, printed = [VisitHeader ip addr]\<rparr>"
  from assms obtain v where loop: "ipdetails_loop rt ip loglines v0 = Inr v"
    and out: "out = printed v @ [VisitFooter]"
    by (auto simp: ipdetails_def Let_def addr_def v0_def split: sum.splits)
  have c0: "counter v0 = 1" by (simp add: v0_def)
  note first = ipdetails_loop_first [OF loop c0]
  have nums: "page_numbers out =
      [1 ..< 1 + length (filter page_line (filter (from_address ip) loglines))]"
    using first by (simp add: out v0_def)
  have shape: "case filter (from_address ip) loglines of
            [] \<Rightarrow> browsers out = [] \<and> referrer_rows out = []
          | first # others \<Rightarrow>
              (\<exists>referrer user_agent.
                 py_index (py_split first [dquote]) (- 4) = Inr referrer \<and>
                 py_index (py_split first [dquote]) (- 2) = Inr user_agent \<and>
                 referrer_rows out = (if 1 < length referrer then [referrer] else []) \<and>
                 browsers out = [if 50 < length user_agent
                                 then py_strip (take 50 user_agent) @ ''...''
                                 else user_agent])"
  proof (cases "filter (from_address ip) loglines")
    case Nil
    with first show ?thesis by (simp add: out v0_def)
  next
    case (Cons l others)
    with first obtain rows where fr: "first_hit_rows l = Inr rows"
      and b: "browsers (printed v) = browsers (printed v0) @ browsers rows"
      and f: "referrer_rows (printed v) = referrer_rows (printed v0) @ referrer_rows rows"
      by auto
    from first_hit_rows_shape [OF fr] obtain referrer user_agent where
      r4: "py_index (py_split l [dquote]) (- 4) = Inr referrer" and
      r2: "py_index (py_split l [dquote]) (- 2) = Inr user_agent" and
      rr: "referrer_rows rows = (if 1 < length referrer then [referrer] else [])" and
      br: "browsers rows = [if 50 < length user_agent
            then py_strip (take 50 user_agent) @ ''...'' else user_agent]"
      by blast
    have "referrer_rows out = (if 1 < length referrer then [referrer] else [])"
      using f rr by (simp add: out v0_def)
    moreover have "browsers out = [if 50 < length user_agent
            then py_strip (take 50 user_agent) @ ''...'' else user_agent]"
      using b br by (simp add: out v0_def)
    ultimately show ?thesis unfolding Cons list.case using r4 r2 by blast
  qed
  have "\<forall>b \<in> set (browsers out). length b \<le> 53"
  proof (cases "filter (from_address ip) loglines")
    case Nil
    with shape show ?thesis by simp
  next
    case (Cons l others)
    with shape obtain ua where "browsers out =
        [if 50 < length ua then py_strip (take 50 ua) @ ''...'' else ua]" by auto
    with shown_agent_length [of ua] show ?thesis by simp
  qed
  with nums shape show ?thesis by blast
qed

lemma py_split_last_fields:
  assumes "c \<notin> set referrer" and "c \<notin> set agent" and "sp \<noteq> c"
  shows "py_split (head @ [c] @ referrer @ [c, sp, c] @ agent @ [c]) [c] =
         py_split head [c] @ [referrer, [sp], agent, []]"
proof -
  have a: "py_split (agent @ [c]) [c] = [agent, []]"
    using py_split_line [OF assms(2), of "[]"] by simp
  have b: "py_split (sp # c # agent @ [c]) [c] = [[sp], agent, []]"
    using py_split_line [of c "[sp]" "agent @ [c]"] assms(3) a by simp
  have r: "py_split (referrer @ c # sp # c # agent @ [c]) [c] = [referrer, [sp], agent, []]"
    using py_split_line [OF assms(1), of "sp # c # agent @ [c]"] b by simp
  have tail: "py_split (c # referrer @ c # sp # c # agent @ [c]) [c] =
      [[], referrer, [sp], agent, []]"
    using r by (simp add: py_split_char_Cons del: py_split.simps)
  have ne: "py_split head [c] \<noteq> []" by (rule py_split_not_Nil)
  have "py_split (head @ (c # referrer @ c # sp # c # agent @ [c])) [c] =
      butlast (py_split head [c]) @ [last (py_split head [c]) @ []] @
      [referrer, [sp], agent, []]"
    by (subst py_split_append) (simp only: tail list.sel)
  also have "\<dots> = py_split head [c] @ [referrer, [sp], agent, []]"
    using ne by simp
  finally show ?thesis by simp
qed

lemma py_index_last_fields:
  "py_index (xs @ [a, b, c, d]) (- 4) = Inr a \<and> py_index (xs @ [a, b, c, d]) (- 2) = Inr c"
  by (simp add: py_index_def nth_append)

lemma page_hit_page_line: "\<not> ignorelines l \<Longrightarrow> page_hit l = page_line l"
  by (simp add: page_hit_def page_line_def split: sum.splits)

lemma example_visit_page_hits:
  "filter page_hit [line_search, line_image, line_second] = [line_search, line_second]"
  by code_simp

lemma example_visit_kept: "list_all (\<lambda>l. \<not> ignorelines l) visit_lines"
  by code_simp

lemma example_first_plain: "\<not> sublist [backslash, dquote] line_search"
  by code_simp

lemma example_first_fields:
  "line_search =
     (''203.0.113.5 - - [06/Nov/2026:10:00:00 +0000] '' @ [dquote] @ ''GET /docs/ HTTP/1.1'' @
      [dquote] @ '' 200 512 '') @
     [dquote] @ ''http://www.google.com/search?q=Django+Book'' @ [dquote, CHR '' '', dquote] @
     ''Mozilla/5.0'' @ [dquote]"
  by (simp add: line_search_def logline_def)

text \<open>
  Claim C8, as amended.  The statement is about an address none of whose lines matches
  \<open>ignorelines\<close>.  In what \<open>ipdetails\<close> prints, the page rows carry the numbers
  \<open>1, 2, \<dots>\<close> up to the number of page hits of the address, whatever the number of all
  its lines is.  With no line of the address there is neither a browser row nor a referrer
  row.  If the first line of the address ends with the quoted referrer, a space and the
  quoted user agent, neither of them holding a quote, and the line holds no quote that
  is escaped by a backslash, then there is a referrer row exactly if the referrer is
  longer than one character, and the browser row shows the user agent itself if that has at
  most 50 characters, and otherwise its first 50 characters, stripped, followed by three
  dots.  A browser row never has more than 53 characters.
\<close>

theorem ipdetails_first_hit_and_numbering:
  assumes "snd (ipdetails rt db ip loglines) = Inr out"
    and "\<forall>l \<in> set loglines. from_address ip l \<longrightarrow> \<not> ignorelines l"
  shows "page_numbers out =
           [1 ..< 1 + length (filter page_hit (filter (from_address ip) loglines))] \<and>
         (filter (from_address ip) loglines = [] \<longrightarrow>
            browsers out = [] \<and> referrer_rows out = []) \<and>
         (\<forall>head referrer agent others.
            filter (from_address ip) loglines =
              (head @ [dquote] @ referrer @ [dquote, CHR '' '', dquote] @ agent @ [dquote]) # others \<and>
            dquote \<notin> set referrer \<and> dquote \<notin> set agent \<and>
            \<not> sublist [backslash, dquote]
                (head @ [dquote] @ referrer @ [dquote, CHR '' '', dquote] @ agent @ [dquote]) \<longrightarrow>
            referrer_rows out = (if 1 < length referrer then [referrer] else []) \<and>
            browsers out = [if 50 < length agent then py_strip (take 50 agent) @ ''...''
                            else agent]) \<and>
         (\<forall>b \<in> set (browsers out). length b \<le> 53)"
proof -
  note rows = ipdetails_rows [OF assms(1)]
  have "filter page_line (filter (from_address ip) loglines) =
      filter page_hit (filter (from_address ip) loglines)"
    using assms(2) by (intro filter_cong) (auto simp: page_hit_page_line)
  with rows have nums: "page_numbers out =
      [1 ..< 1 + length (filter page_hit (filter (from_address ip) loglines))]"
    by simp
  have none: "browsers out = [] \<and> referrer_rows out = []"
    if "filter (from_address ip) loglines = []"
    using rows that by simp
  have first: "referrer_rows out = (if 1 < length referrer then [referrer] else []) \<and>
      browsers out = [if 50 < length agent then py_strip (take 50 agent) @ ''...'' else agent]"
    if f: "filter (from_address ip) loglines =
        (head @ [dquote] @ referrer @ [dquote, CHR '' '', dquote] @ agent @ [dquote]) # others"
      and q: "dquote \<notin> set referrer" "dquote \<notin> set agent"
    for head referrer agent others
  proof -
    define line where
      "line = head @ [dquote] @ referrer @ [dquote, CHR '' '', dquote] @ agent @ [dquote]"
    have sp: "CHR '' '' \<noteq> dquote" by (simp add: dquote_def)
    have split: "py_split line [dquote] =
        py_split head [dquote] @ [referrer, '' '', agent, []]"
      unfolding line_def using q sp by (rule py_split_last_fields)
    have i4: "py_index (py_split line [dquote]) (- 4) = Inr referrer"
      and i2: "py_index (py_split line [dquote]) (- 2) = Inr agent"
      by (simp_all only: split py_index_last_fields)
    from rows f obtain referrer' agent' where
      "py_index (py_split line [dquote]) (- 4) = Inr referrer'"
      "py_index (py_split line [dquote]) (- 2) = Inr agent'"
      "referrer_rows out = (if 1 < length referrer' then [referrer'] else [])"
      "browsers out = [if 50 < length agent' then py_strip (take 50 agent') @ ''...''
                       else agent']"
      unfolding line_def by auto
    with i4 i2 show ?thesis by simp
  qed
  from rows have "\<forall>b \<in> set (browsers out). length b \<le> 53" by blast
  with nums none first show ?thesis by blast
qed

theorem ipdetails_first_hit_and_numbering_witness:
  "(\<exists>out. snd (ipdetails rt0 db_empty ''203.0.113.5'' visit_lines) = Inr out \<and>
      list_all (\<lambda>l. \<not> ignorelines l) visit_lines \<and>
      filter (from_address ''203.0.113.5'') visit_lines = [line_search, line_image, line_second] \<and>
      \<not> sublist [backslash, dquote] line_search \<and>
      page_numbers out = [1, 2] \<and>
      referrer_rows out = [''http://www.google.com/search?q=Django+Book''] \<and>
      browsers out = [''Mozilla/5.0''] \<and>
      list_all (\<lambda>b. length b \<le> 53) (browsers out)) \<and>
   (\<exists>out. snd (ipdetails rt0 db_empty ''198.51.100.1'' visit_lines) = Inr out \<and>
      filter (from_address ''198.51.100.1'') visit_lines = [] \<and>
      page_numbers out = [] \<and> browsers out = [] \<and> referrer_rows out = [])"
proof -
  have kept: "\<forall>l \<in> set visit_lines. from_address ip l \<longrightarrow> \<not> ignorelines l" for ip
    using example_visit_kept by (simp add: list_all_iff)
  from example_visit obtain out where
    out: "snd (ipdetails rt0 db_empty ''203.0.113.5'' visit_lines) = Inr out" by simp
  note c8 = ipdetails_first_hit_and_numbering [OF out kept]
  have k: "length (filter page_hit (filter (from_address ''203.0.113.5'') visit_lines)) = 2"
    by (simp only: example_visit_hits example_visit_page_hits) simp
  from c8 have "page_numbers out =
      [1 ..< 1 + length (filter page_hit (filter (from_address ''203.0.113.5'') visit_lines))]"
    by blast
  then have "page_numbers out = [1 ..< 1 + 2]" by (simp only: k)
  then have nums: "page_numbers out = [1, 2]" by (simp add: upt_rec)
  have q: "dquote \<notin> set ''http://www.google.com/search?q=Django+Book''"
    "dquote \<notin> set ''Mozilla/5.0''"
    by (simp_all add: dquote_def)
  have f: "filter (from_address ''203.0.113.5'') visit_lines =
      ((''203.0.113.5 - - [06/Nov/2026:10:00:00 +0000] '' @ [dquote] @ ''GET /docs/ HTTP/1.1'' @
        [dquote] @ '' 200 512 '') @
       [dquote] @ ''http://www.google.com/search?q=Django+Book'' @ [dquote, CHR '' '', dquote] @
       ''Mozilla/5.0'' @ [dquote]) # [line_image, line_second]"
    by (simp only: example_visit_hits example_first_fields [symmetric])
  have p: "\<not> sublist [backslash, dquote]
      ((''203.0.113.5 - - [06/Nov/2026:10:00:00 +0000] '' @ [dquote] @ ''GET /docs/ HTTP/1.1'' @
        [dquote] @ '' 200 512 '') @
       [dquote] @ ''http://www.google.com/search?q=Django+Book'' @ [dquote, CHR '' '', dquote] @
       ''Mozilla/5.0'' @ [dquote])"
    by (subst example_first_fields [symmetric]) (rule example_first_plain)
  from c8 f q p have
    "referrer_rows out =
       (if 1 < length ''http://www.google.com/search?q=Django+Book''
        then [''http://www.google.com/search?q=Django+Book''] else []) \<and>
     browsers out =
       [if 50 < length ''Mozilla/5.0'' then py_strip (take 50 ''Mozilla/5.0'') @ ''...''
        else ''Mozilla/5.0'']"
    by blast
  then have rows: "referrer_rows out = [''http://www.google.com/search?q=Django+Book'']"
    "browsers out = [''Mozilla/5.0'']" by simp_all
  from c8 have "\<forall>b \<in> set (browsers out). length b \<le> 53" by blast
  then have len: "list_all (\<lambda>b. length b \<le> 53) (browsers out)" by (simp add: list_all_iff)
  from out nums rows len example_visit_kept example_first_plain
  have first: "\<exists>out. snd (ipdetails rt0 db_empty ''203.0.113.5'' visit_lines) = Inr out \<and>
      list_all (\<lambda>l. \<not> ignorelines l) visit_lines \<and>
      filter (from_address ''203.0.113.5'') visit_lines = [line_search, line_image, line_second] \<and>
      \<not> sublist [backslash, dquote] line_search \<and>
      page_numbers out = [1, 2] \<and>
      referrer_rows out = [''http://www.google.com/search?q=Django+Book''] \<and>
      browsers out = [''Mozilla/5.0''] \<and>
      list_all (\<lambda>b. length b \<le> 53) (browsers out)"
    by (auto simp: example_visit_hits)
  from example_no_visit obtain out2 where
    out2: "snd (ipdetails rt0 db_empty ''198.51.100.1'' visit_lines) = Inr out2" by simp
  from ipdetails_first_hit_and_numbering [OF out2 kept]
  have "page_numbers out2 = [] \<and> browsers out2 = [] \<and> referrer_rows out2 = []"
    by (simp add: example_no_visit_hits)
  with out2 example_no_visit_hits
  have "\<exists>out. snd (ipdetails rt0 db_empty ''198.51.100.1'' visit_lines) = Inr out \<and>
      filter (from_address ''198.51.100.1'') visit_lines = [] \<and>
      page_numbers out = [] \<and> browsers out = [] \<and> referrer_rows out = []"
    by blast
  with first show ?thesis by blast
qed

text \<open>
  Claim C8 as the specification states it fails: for a first hit with a user agent of 70
  characters the browser row shows 53 characters, not at most 50; and the referrer
  \<open>-\<close> of that hit is not reported.
\<close>

theorem long_agent_counterexample:
  "snd (ipdetails rt0 db_empty ''203.0.113.9'' [line_longagent]) =
     Inr [VisitHeader ''203.0.113.9'' ''unknown host'',
          BrowserRow ''Mozilla/5.0 (X11; Linux x86_64) AppleWebKit/537.36...'',
          PageRow 1 ''05/Nov/2026:23:59:59'' ''/x/'' ''/x/'',
          VisitFooter] \<and>
   length ''Mozilla/5.0 (X11; Linux x86_64) AppleWebKit/537.36...'' = 53"
  by code_simp

end
